theory Spec2Isabelle
  imports Main "HOL-Library.Sublist"
begin

section \<open>Python strings\<close>

text \<open>
  A Python \<open>str\<close> is modelled as a \<open>string\<close> whose characters are the code points
  0..255.  \<open>isspace\<close> is Python's notion of whitespace on that range; it is the one used
  by \<open>str.strip()\<close>, \<open>str.split()\<close> and by \<open>\s\<close> in a \<open>str\<close> pattern.
\<close>

definition isspace :: "char \<Rightarrow> bool" where
  "isspace c = ((of_char c :: nat) \<in> set [9, 10, 11, 12, 13, 28, 29, 30, 31, 32, 133, 160])"

text \<open>\<open>s.strip()\<close>\<close>

definition strip :: "string \<Rightarrow> string" where
  "strip s = rev (dropWhile isspace (rev (dropWhile isspace s)))"

text \<open>\<open>s.split()\<close>: the maximal runs of non-whitespace characters.\<close>

fun split_ws_aux :: "string \<Rightarrow> string \<Rightarrow> string list" where
  "split_ws_aux acc [] = (if acc = [] then [] else [rev acc])"
| "split_ws_aux acc (c # cs) =
     (if isspace c
      then (if acc = [] then split_ws_aux [] cs else rev acc # split_ws_aux [] cs)
      else split_ws_aux (c # acc) cs)"

definition split_ws :: "string \<Rightarrow> string list" where
  "split_ws s = split_ws_aux [] s"

text \<open>\<open>sep.join(xs)\<close>\<close>

fun join :: "string \<Rightarrow> string list \<Rightarrow> string" where
  "join sep [] = []"
| "join sep [x] = x"
| "join sep (x # y # ys) = x @ sep @ join sep (y # ys)"

text \<open>
  \<open>re.split(r'(?<=[.!?])\s+', text)\<close>.  A match starts at a whitespace character whose
  predecessor is one of \<open>.!?\<close> and takes the whole whitespace run.  \<open>acc\<close> is the
  current piece, reversed; after a match the character before the scan position is
  whitespace, so the look-behind can only succeed on the last character of a non-empty
  piece.
\<close>

function re_split_sentences :: "string \<Rightarrow> string \<Rightarrow> string list" where
  "re_split_sentences acc [] = [rev acc]"
| "re_split_sentences acc (c # cs) =
     (if isspace c \<and> acc \<noteq> [] \<and> hd acc \<in> set ''.!?''
      then rev acc # re_split_sentences [] (dropWhile isspace cs)
      else re_split_sentences (c # acc) cs)"
  by pat_completeness auto
termination
  by (relation "measure (\<lambda>(acc, s). length s)")
     (auto simp: less_Suc_eq_le length_dropWhile_le)

text \<open>Decimal text of an integer, as \<open>str(i)\<close> and an f-string print it.\<close>

fun str_nat :: "nat \<Rightarrow> string" where
  "str_nat n =
     (if n < 10 then [char_of (48 + n)] else str_nat (n div 10) @ [char_of (48 + n mod 10)])"

definition str_int :: "int \<Rightarrow> string" where
  "str_int i = (if i < 0 then ''-'' @ str_nat (nat (- i)) else str_nat (nat i))"

section \<open>Metadata values\<close>

text \<open>
  The values a metadata dictionary holds under \<open>'page_number'\<close>: \<open>None\<close>, an integer or
  a string.
\<close>

datatype pyval = PyNone | PyInt int | PyStr string

type_synonym metadata = "string \<rightharpoonup> pyval"

fun py_str :: "pyval \<Rightarrow> string" where
  "py_str PyNone = ''None''"
| "py_str (PyInt i) = str_int i"
| "py_str (PyStr s) = s"

text \<open>\<open>d.get(k, default)\<close>\<close>

definition dict_get :: "metadata \<Rightarrow> string \<Rightarrow> pyval \<Rightarrow> pyval" where
  "dict_get d k dflt = (case d k of None \<Rightarrow> dflt | Some v \<Rightarrow> v)"

section \<open>chunker.py: SmartChunker\<close>

text \<open>
  The tokenizer (tiktoken) is a collaborator: \<open>encoding\<close> is its \<open>encode\<close> function.
\<close>

record SmartChunker =
  chunk_size :: int
  overlap :: int
  encoding :: "string \<Rightarrow> nat list"

record chunk =
  chunk_id :: string
  text_field :: string
  token_count :: int
  char_count :: int
  word_count :: int
  source_page :: pyval
  metadata :: metadata

definition count_tokens :: "SmartChunker \<Rightarrow> string \<Rightarrow> int" where
  "count_tokens self txt = int (length (encoding self txt))"

definition split_text_by_sentences :: "string \<Rightarrow> string list" where
  "split_text_by_sentences txt =
     map strip (filter (\<lambda>s. strip s \<noteq> []) (re_split_sentences [] txt))"

definition create_chunk :: "string list \<Rightarrow> nat \<Rightarrow> metadata \<Rightarrow> int \<Rightarrow> chunk" where
  "create_chunk sentences cid md tc =
     (let txt = join '' '' sentences in
      \<lparr>chunk_id = py_str (dict_get md ''page_number'' (PyInt 0)) @ ''_'' @ str_int (int cid),
       text_field = txt,
       token_count = tc,
       char_count = int (length txt),
       word_count = int (length (split_ws txt)),
       source_page = dict_get md ''page_number'' PyNone,
       metadata = md\<rparr>)"

text \<open>
  \<open>_get_overlap_text\<close>: the loop walks \<open>reversed(sentences)\<close> and stops at the first
  sentence that does not fit.  \<open>total_tokens\<close> is not used by the source.
\<close>

fun overlap_loop :: "SmartChunker \<Rightarrow> string list \<Rightarrow> string list \<Rightarrow> int \<Rightarrow> string list" where
  "overlap_loop self [] overlap_sentences overlap_tokens = overlap_sentences"
| "overlap_loop self (sentence # rest) overlap_sentences overlap_tokens =
     (let sentence_tokens = count_tokens self sentence in
      if overlap_tokens + sentence_tokens \<le> overlap self
      then overlap_loop self rest (sentence # overlap_sentences) (overlap_tokens + sentence_tokens)
      else overlap_sentences)"

definition get_overlap_text :: "SmartChunker \<Rightarrow> string list \<Rightarrow> int \<Rightarrow> string list" where
  "get_overlap_text self sentences total_tokens = overlap_loop self (rev sentences) [] 0"

text \<open>
  \<open>_split_long_sentence\<close>: the loop over the words, with the locals \<open>chunks\<close>,
  \<open>temp_chunk\<close>, \<open>temp_tokens\<close> and \<open>chunk_id\<close> as arguments.
\<close>

fun split_loop ::
  "SmartChunker \<Rightarrow> metadata \<Rightarrow> string list \<Rightarrow> chunk list \<Rightarrow> string list \<Rightarrow> int \<Rightarrow> nat \<Rightarrow> chunk list"
where
  "split_loop self md [] chunks temp_chunk temp_tokens cid =
     (if temp_chunk \<noteq> []
      then chunks @ [create_chunk [join '' '' temp_chunk] cid md temp_tokens]
      else chunks)"
| "split_loop self md (word # rest) chunks temp_chunk temp_tokens cid =
     (let word_tokens = count_tokens self (word @ '' '') in
      if temp_tokens + word_tokens > chunk_size self
      then (if temp_chunk \<noteq> []
            then split_loop self md rest
                   (chunks @ [create_chunk [join '' '' temp_chunk] cid md temp_tokens])
                   [word] word_tokens (cid + 1)
            else split_loop self md rest chunks [word] word_tokens cid)
      else split_loop self md rest chunks (temp_chunk @ [word]) (temp_tokens + word_tokens) cid)"

definition split_long_sentence :: "SmartChunker \<Rightarrow> string \<Rightarrow> metadata \<Rightarrow> nat \<Rightarrow> chunk list" where
  "split_long_sentence self sentence md start_chunk_id =
     split_loop self md (split_ws sentence) [] [] 0 start_chunk_id"

text \<open>
  \<open>chunk_text\<close>: the locals of the loop over the sentences are the fields of
  \<open>chunk_state\<close> (\<open>next_id\<close> is the local \<open>chunk_id\<close>), \<open>chunk_step\<close> is one pass
  through the loop body, and \<open>chunk_finish\<close> is the code after the loop.
\<close>

record chunk_state =
  chunks :: "chunk list"
  current_chunk :: "string list"
  current_tokens :: int
  next_id :: nat

definition chunk_init :: chunk_state where
  "chunk_init = \<lparr>chunks = [], current_chunk = [], current_tokens = 0, next_id = 0\<rparr>"

definition flush_current :: "metadata \<Rightarrow> chunk_state \<Rightarrow> chunk" where
  "flush_current md st = create_chunk (current_chunk st) (next_id st) md (current_tokens st)"

definition chunk_step :: "SmartChunker \<Rightarrow> metadata \<Rightarrow> chunk_state \<Rightarrow> string \<Rightarrow> chunk_state" where
  "chunk_step self md st sentence =
     (let sentence_tokens = count_tokens self sentence in
      if sentence_tokens > chunk_size self
      then
        (let st1 = (if current_chunk st \<noteq> []
                    then \<lparr>chunks = chunks st @ [flush_current md st],
                          current_chunk = [], current_tokens = 0, next_id = next_id st + 1\<rparr>
                    else st);
             word_chunks = split_long_sentence self sentence md (next_id st1)
         in st1\<lparr>chunks := chunks st1 @ word_chunks,
                next_id := next_id st1 + length word_chunks\<rparr>)
      else if current_tokens st + sentence_tokens > chunk_size self
      then
        (let overlap_chunk = get_overlap_text self (current_chunk st) (current_tokens st);
             new_chunk = overlap_chunk @ [sentence]
         in \<lparr>chunks = chunks st @ [flush_current md st],
             current_chunk = new_chunk,
             current_tokens = count_tokens self (join '' '' new_chunk),
             next_id = next_id st + 1\<rparr>)
      else st\<lparr>current_chunk := current_chunk st @ [sentence],
              current_tokens := current_tokens st + sentence_tokens\<rparr>)"

definition chunk_finish :: "metadata \<Rightarrow> chunk_state \<Rightarrow> chunk list" where
  "chunk_finish md st =
     (if current_chunk st \<noteq> [] then chunks st @ [flush_current md st] else chunks st)"

definition chunk_sentences :: "SmartChunker \<Rightarrow> metadata \<Rightarrow> string list \<Rightarrow> chunk list" where
  "chunk_sentences self md sentences = chunk_finish md (foldl (chunk_step self md) chunk_init sentences)"

definition chunk_text :: "SmartChunker \<Rightarrow> string \<Rightarrow> metadata \<Rightarrow> chunk list" where
  "chunk_text self txt md = chunk_sentences self md (split_text_by_sentences txt)"

text \<open>
  A tokenizer to run the chunker on concrete texts: one token per character.
\<close>

definition char_tokens :: "string \<Rightarrow> nat list" where
  "char_tokens s = map of_char s"

section \<open>Python ranges, slices and sets\<close>

datatype error = EmbeddingError string | ValueError string | ZeroDivisionError

text \<open>
  \<open>range(0, n, step)\<close> for a length \<open>n\<close>: a zero step raises \<open>ValueError\<close>, a negative
  step gives the empty range.
\<close>

definition py_range :: "nat \<Rightarrow> int \<Rightarrow> error + nat list" where
  "py_range n step =
     (if step = 0 then Inl (ValueError ''range() arg 3 must not be zero'')
      else if step < 0 then Inr []
      else Inr (map (\<lambda>k. k * nat step) [0..<(n + nat step - 1) div nat step]))"

text \<open>\<open>[xs[i:i + bsize] for i in range(0, len(xs), bsize)]\<close>\<close>

definition batches_of :: "int \<Rightarrow> 'a list \<Rightarrow> error + 'a list list" where
  "batches_of bsize xs =
     (case py_range (length xs) bsize of
        Inl e \<Rightarrow> Inl e
      | Inr starts \<Rightarrow> Inr (map (\<lambda>i. take (nat bsize) (drop i xs)) starts))"

text \<open>
  A Python \<open>set\<close> of strings is kept as a list without repetitions, in insertion order.
  Python leaves the iteration order of a set open, so \<open>list(s)\<close> is only used through
  its elements.
\<close>

definition pyset_add :: "string list \<Rightarrow> string \<Rightarrow> string list" where
  "pyset_add s x = (if x \<in> set s then s else s @ [x])"

definition pyset_update :: "string list \<Rightarrow> string list \<Rightarrow> string list" where
  "pyset_update s xs = foldl pyset_add s xs"

definition pyset :: "string list \<Rightarrow> string list" where
  "pyset xs = pyset_update [] xs"

section \<open>Embeddings/batch_processor.py: BatchEmbeddingProcessor\<close>

text \<open>
  The checkpoint dictionary.  \<open>timestamp\<close> is \<open>None\<close> for the default returned when no
  file exists, which has no such key.
\<close>

record 'ts checkpoint =
  processed_chunk_ids :: "string list"
  last_batch :: int
  timestamp :: "'ts option"

text \<open>An entry of \<open>embeddings_data\<close>; the keys \<open>chunk_id\<close>, \<open>source_page\<close> and
  \<open>token_count\<close> carry the prefix \<open>e_\<close>.\<close>

record 'v embedding_record =
  e_chunk_id :: string
  embedding :: 'v
  e_source_page :: pyval
  e_token_count :: int

text \<open>
  What the processor acts on: the checkpoint file (\<open>None\<close> when it does not exist), the
  state of the embedding service, the number of readings taken from the clock, and a
  log of the calls made to \<open>generate_embeddings_batch\<close> (the texts of each call).
\<close>

record ('s, 'f) world =
  checkpoint_file :: "'f option"
  service :: 's
  calls :: "string list list"
  ticks :: nat

text \<open>
  The processor with its collaborators.  The embedding service is a state machine:
  \<open>generate_embeddings_batch\<close> returns the vectors or the exception left after its
  retries, and the next state of the service.  \<open>get_all_chunks\<close> is what the storage
  returns; the rows of the storage extend the chunk dictionary of the chunker.
  \<open>time_time n\<close> is the n-th reading of \<open>time.time()\<close>; \<open>json_dump\<close> and \<open>json_load\<close>
  write and read the contents of the checkpoint file (the text that the library writes,
  and what it reads back, are given with the \<open>json\<close> module below).  Writing the file
  is taken to succeed.
\<close>

record ('s, 'v, 'u, 'ts, 'f, 'x) BatchEmbeddingProcessor =
  generate_embeddings_batch :: "'s \<Rightarrow> string list \<Rightarrow> (error + 'v list) \<times> 's"
  get_usage_stats :: "'s \<Rightarrow> 'u"
  get_all_chunks :: "'x chunk_scheme list"
  batch_size :: int
  time_time :: "nat \<Rightarrow> 'ts"
  json_dump :: "'ts checkpoint \<Rightarrow> 'f"
  json_load :: "'f \<Rightarrow> 'ts checkpoint"

text \<open>\<open>elapsed_time\<close> is the literal 0 on the early return, else \<open>end - start\<close>.\<close>

datatype 'ts elapsed = NoTime | Elapsed 'ts 'ts

record ('v, 'u, 'ts) result =
  embeddings :: "'v embedding_record list"
  total_chunks :: int
  processed :: int
  skipped :: int
  embeddings_generated :: int
  stats :: 'u
  elapsed_time :: "'ts elapsed"

definition empty_checkpoint :: "'ts checkpoint" where
  "empty_checkpoint = \<lparr>processed_chunk_ids = [], last_batch = 0, timestamp = None\<rparr>"

definition load_checkpoint ::
  "('s, 'v, 'u, 'ts, 'f, 'x) BatchEmbeddingProcessor \<Rightarrow> ('s, 'f) world \<Rightarrow> 'ts checkpoint" where
  "load_checkpoint self w =
     (case checkpoint_file w of
        Some f \<Rightarrow> json_load self f
      | None \<Rightarrow> empty_checkpoint)"

definition save_checkpoint ::
  "('s, 'v, 'u, 'ts, 'f, 'x) BatchEmbeddingProcessor \<Rightarrow> string list \<Rightarrow> int \<Rightarrow>
   ('s, 'f) world \<Rightarrow> ('s, 'f) world" where
  "save_checkpoint self ids batch_num w =
     w\<lparr>checkpoint_file :=
          Some (json_dump self
                  \<lparr>processed_chunk_ids = ids, last_batch = batch_num,
                   timestamp = Some (time_time self (ticks w))\<rparr>),
       ticks := ticks w + 1\<rparr>"

text \<open>
  The loop over \<open>enumerate(batches)\<close>, with the locals \<open>embeddings_data\<close> and
  \<open>processed_ids\<close>.  An exception of the service leaves both untouched; the handler
  saves the checkpoint with \<open>batch_idx\<close> and re-raises.
\<close>

fun process_batches ::
  "('s, 'v, 'u, 'ts, 'f, 'x) BatchEmbeddingProcessor \<Rightarrow> nat \<Rightarrow> 'x chunk_scheme list list \<Rightarrow>
   'v embedding_record list \<Rightarrow> string list \<Rightarrow> ('s, 'f) world \<Rightarrow>
   (error + 'v embedding_record list \<times> string list) \<times> ('s, 'f) world" where
  "process_batches self batch_idx [] embeddings_data processed_ids w =
     (Inr (embeddings_data, processed_ids), w)"
| "process_batches self batch_idx (batch # rest) embeddings_data processed_ids w =
     (let texts = map text_field batch;
          chunk_ids = map chunk_id batch;
          (r, s') = generate_embeddings_batch self (service w) texts;
          w1 = w\<lparr>service := s', calls := calls w @ [texts]\<rparr>
      in case r of
           Inl e \<Rightarrow> (Inl e, save_checkpoint self processed_ids (int batch_idx) w1)
         | Inr vectors \<Rightarrow>
             (let embeddings_data' = embeddings_data @
                    map (\<lambda>(c, v). \<lparr>e_chunk_id = chunk_id c, embedding = v,
                                    e_source_page = source_page c,
                                    e_token_count = token_count c\<rparr>)
                        (zip batch vectors);
                  processed_ids' = pyset_update processed_ids chunk_ids;
                  w2 = (if (batch_idx + 1) mod 10 = 0
                        then save_checkpoint self processed_ids' (int (batch_idx + 1)) w1
                        else w1)
              in process_batches self (batch_idx + 1) rest embeddings_data' processed_ids' w2))"

text \<open>
  \<open>process_all_chunks\<close>.  After the final checkpoint the source logs
  \<open>len(embeddings_data) / elapsed_time\<close>: when the two clock readings are equal,
  \<open>elapsed_time\<close> is zero and the division raises \<open>ZeroDivisionError\<close>, outside the
  \<open>try\<close> of the loop.
\<close>

definition process_all_chunks ::
  "('s, 'v, 'u, 'ts, 'f, 'x) BatchEmbeddingProcessor \<Rightarrow> bool \<Rightarrow> ('s, 'f) world \<Rightarrow>
   (error + ('v, 'u, 'ts) result) \<times> ('s, 'f) world" where
  "process_all_chunks self resume w =
     (let checkpoint = (if resume then load_checkpoint self w else empty_checkpoint);
          processed_ids = pyset (processed_chunk_ids checkpoint);
          all_chunks = get_all_chunks self;
          chunks_to_process = filter (\<lambda>c. chunk_id c \<notin> set processed_ids) all_chunks
      in if chunks_to_process = []
         then (Inr \<lparr>embeddings = [],
                    total_chunks = int (length all_chunks),
                    processed = int (length all_chunks),
                    skipped = int (length all_chunks),
                    embeddings_generated = 0,
                    stats = get_usage_stats self (service w),
                    elapsed_time = NoTime\<rparr>, w)
         else case batches_of (batch_size self) chunks_to_process of
                Inl e \<Rightarrow> (Inl e, w)
              | Inr batches \<Rightarrow>
                  (let start_time = time_time self (ticks w);
                       w1 = w\<lparr>ticks := ticks w + 1\<rparr>
                   in case process_batches self 0 batches [] processed_ids w1 of
                        (Inl e, w2) \<Rightarrow> (Inl e, w2)
                      | (Inr (embeddings_data, processed_ids'), w2) \<Rightarrow>
                          (let w3 = save_checkpoint self processed_ids' (int (length batches)) w2;
                               end_time = time_time self (ticks w3);
                               w4 = w3\<lparr>ticks := ticks w3 + 1\<rparr>
                           in if end_time = start_time
                              then (Inl ZeroDivisionError, w4)
                              else (Inr \<lparr>embeddings = embeddings_data,
                                     total_chunks = int (length all_chunks),
                                     processed = int (length embeddings_data),
                                     skipped = int (length processed_ids')
                                               - int (length embeddings_data),
                                     embeddings_generated = int (length embeddings_data),
                                     stats = get_usage_stats self (service w4),
                                     elapsed_time = Elapsed end_time start_time\<rparr>, w4))))"

text \<open>
  The state of the service after it has answered each of the given requests with
  vectors; \<open>None\<close> when one of them raises.
\<close>

fun served ::
  "('s, 'v, 'u, 'ts, 'f, 'x) BatchEmbeddingProcessor \<Rightarrow> 's \<Rightarrow> string list list \<Rightarrow> 's option" where
  "served self s [] = Some s"
| "served self s (texts # rest) =
     (case generate_embeddings_batch self s texts of
        (Inl e, s') \<Rightarrow> None
      | (Inr vectors, s') \<Rightarrow> served self s' rest)"

section \<open>The \<open>json\<close> module, as far as the checkpoint file uses it\<close>

text \<open>
  \<open>json.dump(checkpoint, f, indent=2)\<close> and \<open>json.load(f)\<close> belong to Python's standard
  library.  They are written out here for the documents the processor stores: an
  object whose values are strings, numbers and lists of them.  The writer is the
  library's encoder with \<open>ensure_ascii\<close> and an indentation of two spaces; the reader
  is the library's decoder on such documents, and \<open>None\<close> stands for every other text
  (for which \<open>json.load\<close> raises, or returns something that is not a checkpoint).  The
  text of a float is a parameter: \<open>float_repr\<close> is \<open>float.__repr__\<close>, and
  \<open>float_of_str\<close> is \<open>float\<close> on the text of a JSON number.
\<close>

definition dq :: char where
  "dq = CHR 0x22"

definition bsl :: char where
  "bsl = CHR 0x5C"

definition nl :: char where
  "nl = CHR 0x0A"

subsection \<open>Writing\<close>

definition hexdigit :: "nat \<Rightarrow> char" where
  "hexdigit k = (if k < 10 then char_of (48 + k) else char_of (87 + k))"

text \<open>
  One character of a string in \<open>py_encode_basestring_ascii\<close>: the short escapes, then
  \<open>\uXXXX\<close> for every other character outside the range from space to tilde.
\<close>

definition escape_char :: "char \<Rightarrow> string" where
  "escape_char c =
     (let n = (of_char c :: nat) in
      if c = dq then [bsl, dq]
      else if c = bsl then [bsl, bsl]
      else if n = 10 then [bsl, CHR ''n'']
      else if n = 13 then [bsl, CHR ''r'']
      else if n = 9 then [bsl, CHR ''t'']
      else if n = 8 then [bsl, CHR ''b'']
      else if n = 12 then [bsl, CHR ''f'']
      else if n < 32 \<or> 126 < n
      then [bsl, CHR ''u'', CHR ''0'', CHR ''0'', hexdigit (n div 16), hexdigit (n mod 16)]
      else [c])"

definition dump_str :: "string \<Rightarrow> string" where
  "dump_str s = dq # concat (map escape_char s) @ [dq]"

text \<open>A list of strings one level inside the object: \<open>[]\<close> when empty, else one item per line.\<close>

definition item_sep :: string where
  "item_sep = '','' @ [nl] @ ''    ''"

definition dump_str_list :: "string list \<Rightarrow> string" where
  "dump_str_list xs =
     (if xs = [] then ''[]''
      else ''['' @ [nl] @ ''    ''
           @ join item_sep (map dump_str xs)
           @ [nl] @ ''  '' @ '']'')"

text \<open>
  The dictionary of \<open>save_checkpoint\<close>, keys in insertion order.  A checkpoint without
  timestamp is the dictionary with the first two keys.
\<close>

definition checkpoint_json :: "('ts \<Rightarrow> string) \<Rightarrow> 'ts checkpoint \<Rightarrow> string" where
  "checkpoint_json float_repr c =
     ''{'' @ [nl] @ ''  '' @ dump_str ''processed_chunk_ids'' @ '': ''
       @ dump_str_list (processed_chunk_ids c)
     @ '','' @ [nl] @ ''  '' @ dump_str ''last_batch'' @ '': '' @ str_int (last_batch c)
     @ (case timestamp c of
          None \<Rightarrow> []
        | Some t \<Rightarrow> '','' @ [nl] @ ''  '' @ dump_str ''timestamp'' @ '': '' @ float_repr t)
     @ [nl] @ ''}''"

subsection \<open>Reading: the tokens\<close>

datatype token = LBrace | RBrace | LBrack | RBrack | Comma | Colon | Str string | Num string

datatype char_class = Space | Punct token | Quote | NumChar | Other

definition numchar :: "char \<Rightarrow> bool" where
  "numchar c = (c \<in> set ''+-0123456789.eE'')"

definition classify :: "char \<Rightarrow> char_class" where
  "classify c =
     (if (of_char c :: nat) \<in> set [32, 9, 10, 13] then Space
      else if c = CHR ''{'' then Punct LBrace
      else if c = CHR ''}'' then Punct RBrace
      else if c = CHR ''['' then Punct LBrack
      else if c = CHR '']'' then Punct RBrack
      else if c = CHR '','' then Punct Comma
      else if c = CHR '':'' then Punct Colon
      else if c = dq then Quote
      else if numchar c then NumChar
      else Other)"

definition hexval :: "char \<Rightarrow> nat option" where
  "hexval c =
     (let n = (of_char c :: nat) in
      if 48 \<le> n \<and> n \<le> 57 then Some (n - 48)
      else if 97 \<le> n \<and> n \<le> 102 then Some (n - 87)
      else if 65 \<le> n \<and> n \<le> 70 then Some (n - 55)
      else None)"

definition unescape :: "char \<Rightarrow> char option" where
  "unescape c =
     (if c = dq then Some dq
      else if c = bsl then Some bsl
      else if c = CHR ''/'' then Some (CHR ''/'')
      else if c = CHR ''b'' then Some (char_of (8 :: nat))
      else if c = CHR ''f'' then Some (char_of (12 :: nat))
      else if c = CHR ''n'' then Some (char_of (10 :: nat))
      else if c = CHR ''r'' then Some (char_of (13 :: nat))
      else if c = CHR ''t'' then Some (char_of (9 :: nat))
      else None)"

text \<open>
  The scanner, one character at a time: outside a token, inside a string (the
  characters read so far, reversed), after a backslash, inside \<open>\uXXXX\<close> (the number of
  hexadecimal digits read and their value), inside a number.  A control character
  inside a string, an unknown escape, a code point above 255 (outside the characters
  modelled) and an unfinished string are refused.
\<close>

datatype scan_state = Out | InStr string | Esc string | Uni string nat nat | InNum string

fun scan :: "scan_state \<Rightarrow> string \<Rightarrow> token list option" where
  "scan Out [] = Some []"
| "scan (InNum acc) [] = Some [Num (rev acc)]"
| "scan (InStr acc) [] = None"
| "scan (Esc acc) [] = None"
| "scan (Uni acc k v) [] = None"
| "scan Out (c # cs) =
     (case classify c of
        Space \<Rightarrow> scan Out cs
      | Punct t \<Rightarrow> map_option (Cons t) (scan Out cs)
      | Quote \<Rightarrow> scan (InStr []) cs
      | NumChar \<Rightarrow> scan (InNum [c]) cs
      | Other \<Rightarrow> None)"
| "scan (InNum acc) (c # cs) =
     (case classify c of
        NumChar \<Rightarrow> scan (InNum (c # acc)) cs
      | Space \<Rightarrow> map_option (Cons (Num (rev acc))) (scan Out cs)
      | Punct t \<Rightarrow> map_option (\<lambda>ts. Num (rev acc) # t # ts) (scan Out cs)
      | Quote \<Rightarrow> map_option (Cons (Num (rev acc))) (scan (InStr []) cs)
      | Other \<Rightarrow> None)"
| "scan (InStr acc) (c # cs) =
     (if c = dq then map_option (Cons (Str (rev acc))) (scan Out cs)
      else if c = bsl then scan (Esc acc) cs
      else if (of_char c :: nat) < 32 then None
      else scan (InStr (c # acc)) cs)"
| "scan (Esc acc) (c # cs) =
     (if c = CHR ''u'' then scan (Uni acc 0 0) cs
      else case unescape c of
             Some ch \<Rightarrow> scan (InStr (ch # acc)) cs
           | None \<Rightarrow> None)"
| "scan (Uni acc k v) (c # cs) =
     (case hexval c of
        None \<Rightarrow> None
      | Some d \<Rightarrow>
          if k = 3
          then (if v * 16 + d < 256 then scan (InStr (char_of (v * 16 + d) # acc)) cs else None)
          else scan (Uni acc (k + 1) (v * 16 + d)) cs)"

subsection \<open>Reading: numbers, lists and the object\<close>

datatype 'ts atom = AStr string | AInt int | AFloat 'ts

datatype 'ts jvalue = Atom "'ts atom" | Arr "'ts atom list"

definition is_digit :: "char \<Rightarrow> bool" where
  "is_digit c = (48 \<le> (of_char c :: nat) \<and> (of_char c :: nat) \<le> 57)"

text \<open>An integer part is \<open>0\<close> or starts with a digit other than \<open>0\<close>.\<close>

definition nat_of_text :: "string \<Rightarrow> nat option" where
  "nat_of_text ds =
     (if ds \<noteq> [] \<and> list_all is_digit ds \<and> (length ds = 1 \<or> hd ds \<noteq> CHR ''0'')
      then Some (foldl (\<lambda>a c. 10 * a + (of_char c - 48)) 0 ds)
      else None)"

definition int_of_text :: "string \<Rightarrow> int option" where
  "int_of_text t =
     (case t of
        [] \<Rightarrow> None
      | c # ds \<Rightarrow> if c = CHR ''-'' then map_option (\<lambda>n. - int n) (nat_of_text ds)
                  else map_option int (nat_of_text t))"

text \<open>A number with a fraction or an exponent is a float.\<close>

definition is_float_text :: "string \<Rightarrow> bool" where
  "is_float_text t = list_ex (\<lambda>c. c \<in> set ''.eE'') t"

fun parse_atom :: "(string \<Rightarrow> 'ts option) \<Rightarrow> token \<Rightarrow> 'ts atom option" where
  "parse_atom float_of_str (Str s) = Some (AStr s)"
| "parse_atom float_of_str (Num t) =
     (if is_float_text t then map_option AFloat (float_of_str t)
      else map_option AInt (int_of_text t))"
| "parse_atom float_of_str _ = None"

text \<open>The tokens between \<open>[\<close> and \<open>]\<close>: items separated by commas.\<close>

fun parse_elems :: "(string \<Rightarrow> 'ts option) \<Rightarrow> token list \<Rightarrow> 'ts atom list option" where
  "parse_elems float_of_str [] = None"
| "parse_elems float_of_str [t] = map_option (\<lambda>a. [a]) (parse_atom float_of_str t)"
| "parse_elems float_of_str (t # Comma # ts) =
     (case parse_atom float_of_str t of
        None \<Rightarrow> None
      | Some a \<Rightarrow> map_option (Cons a) (parse_elems float_of_str ts))"
| "parse_elems float_of_str (t # u # ts) = None"

definition parse_array :: "(string \<Rightarrow> 'ts option) \<Rightarrow> token list \<Rightarrow> 'ts atom list option" where
  "parse_array float_of_str ts = (if ts = [] then Some [] else parse_elems float_of_str ts)"

text \<open>
  One member of the object, \<open>"key": value\<close>, and the tokens after it.  A list runs
  to the next \<open>]\<close> (lists are not nested in these documents).
\<close>

definition parse_member ::
  "(string \<Rightarrow> 'ts option) \<Rightarrow> token list \<Rightarrow> ((string \<times> 'ts jvalue) \<times> token list) option" where
  "parse_member float_of_str ts =
     (case ts of
        Str k # Colon # t # rest \<Rightarrow>
          if t = LBrack
          then (case parse_array float_of_str (takeWhile (\<lambda>u. u \<noteq> RBrack) rest) of
                  None \<Rightarrow> None
                | Some xs \<Rightarrow>
                    (case dropWhile (\<lambda>u. u \<noteq> RBrack) rest of
                       [] \<Rightarrow> None
                     | r # rest' \<Rightarrow> Some ((k, Arr xs), rest')))
          else map_option (\<lambda>a. ((k, Atom a), rest)) (parse_atom float_of_str t)
      | _ \<Rightarrow> None)"

text \<open>
  The members after \<open>{\<close>: after a member comes the closing brace, which must end the
  document, or a comma and the next member.
\<close>

function parse_members ::
  "(string \<Rightarrow> 'ts option) \<Rightarrow> token list \<Rightarrow> (string \<times> 'ts jvalue) list option" where
  "parse_members float_of_str ts =
     (case parse_member float_of_str ts of
        None \<Rightarrow> None
      | Some (kv, ts1) \<Rightarrow>
          (case ts1 of
             [] \<Rightarrow> None
           | u # ts2 \<Rightarrow>
               if u = RBrace \<and> ts2 = [] then Some [kv]
               else if u = Comma then map_option (Cons kv) (parse_members float_of_str ts2)
               else None))"
  by pat_completeness auto
termination
proof (relation "measure (\<lambda>(f, ts). length ts)")
  show "wf (measure (\<lambda>(f :: string \<Rightarrow> 'ts option, ts :: token list). length ts))"
    by simp
next
  fix float_of_str :: "string \<Rightarrow> 'ts option"
  fix ts :: "token list" and x2 :: "(string \<times> 'ts jvalue) \<times> token list"
    and kv :: "string \<times> 'ts jvalue" and ts1 u ts2
  assume m: "parse_member float_of_str ts = Some x2" and x: "(kv, ts1) = x2" and t: "ts1 = u # ts2"
  have "length ts1 < length ts"
  proof -
    from m x obtain k t rest where ts: "ts = Str k # Colon # t # rest"
      and r: "(if t = LBrack
          then (case parse_array float_of_str (takeWhile (\<lambda>u. u \<noteq> RBrack) rest) of
                  None \<Rightarrow> None
                | Some xs \<Rightarrow>
                    (case dropWhile (\<lambda>u. u \<noteq> RBrack) rest of
                       [] \<Rightarrow> None
                     | r # rest' \<Rightarrow> Some ((k, Arr xs), rest')))
          else map_option (\<lambda>a. ((k, Atom a), rest)) (parse_atom float_of_str t)) = Some (kv, ts1)"
      by (auto simp: parse_member_def split: list.splits token.splits)
    have "length ts1 \<le> length rest"
    proof (cases "t = LBrack")
      case True
      with r obtain r' where "dropWhile (\<lambda>u. u \<noteq> RBrack) rest = r' # ts1"
        by (auto split: option.splits list.splits)
      then have "length ts1 < length (dropWhile (\<lambda>u. u \<noteq> RBrack) rest)" by simp
      also have "\<dots> \<le> length rest" by (rule length_dropWhile_le)
      finally show ?thesis by simp
    next
      case False
      with r show ?thesis by auto
    qed
    then show ?thesis by (simp add: ts)
  qed
  then show "((float_of_str, ts2), (float_of_str, ts)) \<in> measure (\<lambda>(f, ts). length ts)"
    using t by simp
qed

text \<open>
  The document: an object.  The dictionary keeps the last value of a repeated key.  A
  checkpoint has a list of strings under \<open>processed_chunk_ids\<close>, an integer under
  \<open>last_batch\<close> and, when the key is there, a float under \<open>timestamp\<close>.
\<close>

definition parse_object ::
  "(string \<Rightarrow> 'ts option) \<Rightarrow> token list \<Rightarrow> (string \<times> 'ts jvalue) list option" where
  "parse_object float_of_str ts =
     (case ts of
        LBrace # rest \<Rightarrow> if rest = [RBrace] then Some [] else parse_members float_of_str rest
      | _ \<Rightarrow> None)"

fun strings_of :: "'ts atom list \<Rightarrow> string list option" where
  "strings_of [] = Some []"
| "strings_of (AStr s # xs) = map_option (Cons s) (strings_of xs)"
| "strings_of (a # xs) = None"

definition checkpoint_of_members :: "(string \<times> 'ts jvalue) list \<Rightarrow> 'ts checkpoint option" where
  "checkpoint_of_members ms =
     (let d = map_of (rev ms) in
      case (d ''processed_chunk_ids'', d ''last_batch'') of
        (Some (Arr xs), Some (Atom (AInt n))) \<Rightarrow>
          (case strings_of xs of
             None \<Rightarrow> None
           | Some ids \<Rightarrow>
               (case d ''timestamp'' of
                  None \<Rightarrow> Some \<lparr>processed_chunk_ids = ids, last_batch = n, timestamp = None\<rparr>
                | Some (Atom (AFloat t)) \<Rightarrow>
                    Some \<lparr>processed_chunk_ids = ids, last_batch = n, timestamp = Some t\<rparr>
                | Some v \<Rightarrow> None))
      | other \<Rightarrow> None)"

definition checkpoint_of_json :: "(string \<Rightarrow> 'ts option) \<Rightarrow> string \<Rightarrow> 'ts checkpoint option" where
  "checkpoint_of_json float_of_str s =
     (case scan Out s of
        None \<Rightarrow> None
      | Some ts \<Rightarrow>
          (case parse_object float_of_str ts of
             None \<Rightarrow> None
           | Some ms \<Rightarrow> checkpoint_of_members ms))"

text \<open>
  A float text to run the reader and the writer on concrete data: timestamps are whole
  seconds \<open>n\<close>, printed as \<open>n.0\<close>.
\<close>

definition demo_float_repr :: "nat \<Rightarrow> string" where
  "demo_float_repr n = str_nat n @ ''.0''"

definition demo_float_of_str :: "string \<Rightarrow> nat option" where
  "demo_float_of_str s =
     (if dropWhile (\<lambda>c. c \<noteq> CHR ''.'') s = ''.0''
      then nat_of_text (takeWhile (\<lambda>c. c \<noteq> CHR ''.'') s)
      else None)"


section \<open>vector\_strore/qdrant\_store.py: QdrantStore.upsert\_embeddings\<close>

text \<open>
  A \<open>PointStruct\<close>: its \<open>id\<close> (here \<open>point_id\<close>), its vector and the three entries of its
  payload.  Items of \<open>embeddings_data\<close> are the records built by the batch processor,
  which always carry \<open>source_page\<close> and \<open>token_count\<close>.
\<close>

record 'v PointStruct =
  point_id :: int
  vector :: 'v
  payload_chunk_id :: string
  payload_source_page :: pyval
  payload_token_count :: int

text \<open>
  The Qdrant client is seen through the calls it receives: \<open>uploads\<close> is the list of
  the point lists passed to \<open>client.upsert\<close>, oldest first.  One pass through the loop
  body, for the start index \<open>i\<close>, with the local \<open>total_uploaded\<close>:
\<close>

definition upsert_batch ::
  "'v embedding_record list \<Rightarrow> int \<Rightarrow> int \<times> 'v PointStruct list list \<Rightarrow> nat \<Rightarrow>
   int \<times> 'v PointStruct list list" where
  "upsert_batch embeddings_data bsize st i =
     (let (total_uploaded, uploads) = st;
          batch = take (nat bsize) (drop i embeddings_data);
          points = map (\<lambda>(idx, item).
                          \<lparr>point_id = total_uploaded + int idx,
                           vector = embedding item,
                           payload_chunk_id = e_chunk_id item,
                           payload_source_page = e_source_page item,
                           payload_token_count = e_token_count item\<rparr>)
                       (enumerate 0 batch)
      in (total_uploaded + int (length points), uploads @ [points]))"

definition upsert_embeddings ::
  "'v embedding_record list \<Rightarrow> int \<Rightarrow> 'v PointStruct list list \<Rightarrow>
   (error + int) \<times> 'v PointStruct list list" where
  "upsert_embeddings embeddings_data bsize uploads =
     (case py_range (length embeddings_data) bsize of
        Inl e \<Rightarrow> (Inl e, uploads)
      | Inr starts \<Rightarrow>
          (let (total_uploaded, uploads') =
                 foldl (upsert_batch embeddings_data bsize) (0, uploads) starts
           in (Inr total_uploaded, uploads')))"

text \<open>Embedding records to upload in concrete runs.\<close>

definition demo_embeddings :: "string list \<Rightarrow> nat embedding_record list" where
  "demo_embeddings ids =
     map (\<lambda>i. \<lparr>e_chunk_id = i, embedding = length i, e_source_page = PyInt 1,
               e_token_count = 2\<rparr>) ids"

section \<open>Predicates used to state the properties of the chunker\<close>

text \<open>
  \<open>ids_from md c0 cs\<close>: the chunks \<open>cs\<close> carry the identifiers
  \<open>"{page_number}_{c0}"\<close>, \<open>"{page_number}_{c0 + 1}"\<close>, ... in this order.
\<close>

definition ids_from :: "metadata \<Rightarrow> nat \<Rightarrow> chunk list \<Rightarrow> bool" where
  "ids_from md c0 cs \<longleftrightarrow>
     map chunk_id cs =
       map (\<lambda>i. py_str (dict_get md ''page_number'' (PyInt 0)) @ ''_'' @ str_int (int i))
         [c0..<c0 + length cs]"

text \<open>\<open>made_from md c\<close>: \<open>c\<close> was built by \<open>_create_chunk\<close> with the metadata \<open>md\<close>.\<close>

definition made_from :: "metadata \<Rightarrow> chunk \<Rightarrow> bool" where
  "made_from md c \<longleftrightarrow> (\<exists>ss cid tc. c = create_chunk ss cid md tc)"

text \<open>The invariant of the sentence loop behind the identifiers.\<close>

definition ids_inv :: "metadata \<Rightarrow> chunk_state \<Rightarrow> bool" where
  "ids_inv md st \<longleftrightarrow> ids_from md 0 (chunks st) \<and> next_id st = length (chunks st)"

text \<open>
  How \<open>token_count\<close> is obtained.  \<open>word_chunk\<close>: a chunk of \<open>_split_long_sentence\<close>,
  the words \<open>ws\<close> joined by spaces, counted word by word with a space appended.
  \<open>buffer_tokens self ss tc\<close>: \<open>tc\<close> is the count kept for the sentence buffer \<open>ss\<close>,
  the sum of the sentence counts (\<open>k = 0\<close>) or, when the first \<open>k\<close> sentences seeded
  the buffer after a flush, the count of their joined text plus the counts of the
  sentences appended since.  \<open>sentence_chunk\<close>: a flushed buffer.
\<close>

definition word_chunk :: "SmartChunker \<Rightarrow> metadata \<Rightarrow> chunk \<Rightarrow> bool" where
  "word_chunk self md c \<longleftrightarrow>
     (\<exists>ws cid. ws \<noteq> [] \<and>
        c = create_chunk [join '' '' ws] cid md (\<Sum>w\<leftarrow>ws. count_tokens self (w @ '' '')))"

definition buffer_tokens :: "SmartChunker \<Rightarrow> string list \<Rightarrow> int \<Rightarrow> bool" where
  "buffer_tokens self ss tc \<longleftrightarrow>
     (\<exists>k\<le>length ss.
        tc = (if k = 0 then 0 else count_tokens self (join '' '' (take k ss)))
             + (\<Sum>s\<leftarrow>drop k ss. count_tokens self s))"

definition sentence_chunk :: "SmartChunker \<Rightarrow> metadata \<Rightarrow> chunk \<Rightarrow> bool" where
  "sentence_chunk self md c \<longleftrightarrow>
     (\<exists>ss cid tc. ss \<noteq> [] \<and> c = create_chunk ss cid md tc \<and> buffer_tokens self ss tc)"

definition counted :: "SmartChunker \<Rightarrow> metadata \<Rightarrow> chunk \<Rightarrow> bool" where
  "counted self md c \<longleftrightarrow> word_chunk self md c \<or> sentence_chunk self md c"

text \<open>The invariant of the sentence loop behind the token counts.\<close>

definition count_inv :: "SmartChunker \<Rightarrow> metadata \<Rightarrow> chunk_state \<Rightarrow> bool" where
  "count_inv self md st \<longleftrightarrow>
     (\<forall>c\<in>set (chunks st). counted self md c) \<and>
     buffer_tokens self (current_chunk st) (current_tokens st)"

text \<open>The total of the token counts of a list of sentences, each counted alone.\<close>

definition tokens_of :: "SmartChunker \<Rightarrow> string list \<Rightarrow> int" where
  "tokens_of self ss = (\<Sum>s\<leftarrow>ss. count_tokens self s)"


definition word_tokens :: "SmartChunker \<Rightarrow> string list \<Rightarrow> int" where
  "word_tokens self g = (\<Sum>w\<leftarrow>g. count_tokens self (w @ '' ''))"

definition word_chunks ::
  "SmartChunker \<Rightarrow> metadata \<Rightarrow> nat \<Rightarrow> string list list \<Rightarrow> chunk list" where
  "word_chunks self md start groups =
     map (\<lambda>(i, g). create_chunk [join '' '' g] i md (word_tokens self g))
       (enumerate start groups)"

section \<open>Notions used to state the properties of the batch processor\<close>

text \<open>What an embedding record carries over from its chunk.\<close>

definition carried_e :: "'v embedding_record \<Rightarrow> string \<times> pyval \<times> int" where
  "carried_e r = (e_chunk_id r, e_source_page r, e_token_count r)"

definition carried_c :: "'x chunk_scheme \<Rightarrow> string \<times> pyval \<times> int" where
  "carried_c c = (chunk_id c, source_page c, token_count c)"

text \<open>
  The chunks still to embed: those of the storage whose identifier is not in the
  checkpoint the run starts from.
\<close>

definition start_checkpoint ::
  "('s, 'v, 'u, 'ts, 'f, 'x) BatchEmbeddingProcessor \<Rightarrow> bool \<Rightarrow> ('s, 'f) world \<Rightarrow> 'ts checkpoint" where
  "start_checkpoint self resume w = (if resume then load_checkpoint self w else empty_checkpoint)"

definition pending_chunks ::
  "('s, 'v, 'u, 'ts, 'f, 'x) BatchEmbeddingProcessor \<Rightarrow> bool \<Rightarrow> ('s, 'f) world \<Rightarrow>
   'x chunk_scheme list" where
  "pending_chunks self resume w =
     filter (\<lambda>c. chunk_id c \<notin> set (processed_chunk_ids (start_checkpoint self resume w)))
       (get_all_chunks self)"

text \<open>
  A processor to run on concrete data: \<open>n\<close> stored chunks \<open>1_0\<close>, ..., an embedding
  service whose state counts its calls, which raises on every call from call number
  \<open>fail_from\<close> on (counting from 0) and else returns one number per text, a clock that
  returns the number of the reading, and a checkpoint file that holds the dictionary
  as it is.
\<close>

definition demo_chunks :: "nat \<Rightarrow> chunk list" where
  "demo_chunks n =
     map (\<lambda>i. \<lparr>chunk_id = ''1_'' @ str_nat i, text_field = ''text '' @ str_nat i,
               token_count = 2, char_count = int (length (''text '' @ str_nat i)),
               word_count = 2, source_page = PyInt 1,
               metadata = [''page_number'' \<mapsto> PyInt 1]\<rparr>) [0..<n]"

definition demo_processor ::
  "nat \<Rightarrow> int \<Rightarrow> nat \<Rightarrow> (nat, nat, nat, nat, nat checkpoint, unit) BatchEmbeddingProcessor" where
  "demo_processor n bsize fail_from =
     \<lparr>generate_embeddings_batch =
        (\<lambda>s texts. (if fail_from \<le> s then Inl (EmbeddingError ''quota exceeded'')
                     else Inr (map length texts), s + 1)),
      get_usage_stats = (\<lambda>s. s),
      get_all_chunks = demo_chunks n,
      batch_size = bsize,
      time_time = (\<lambda>k. k),
      json_dump = (\<lambda>c. c),
      json_load = (\<lambda>c. c)\<rparr>"

definition demo_world :: "(nat, nat checkpoint) world" where
  "demo_world = \<lparr>checkpoint_file = None, service = 0, calls = [], ticks = 0\<rparr>"

text \<open>The groups a run works through: the pending chunks cut into batches.\<close>

definition pending_batches ::
  "('s, 'v, 'u, 'ts, 'f, 'x) BatchEmbeddingProcessor \<Rightarrow> bool \<Rightarrow> ('s, 'f) world \<Rightarrow>
   'x chunk_scheme list list" where
  "pending_batches self resume w =
     (case batches_of (batch_size self) (pending_chunks self resume w) of
        Inl e \<Rightarrow> []
      | Inr batches \<Rightarrow> batches)"

section \<open>Notions used to state the properties of the upload\<close>

text \<open>The point built for the item at index \<open>idx\<close> of a batch when \<open>tot\<close> points were uploaded before.\<close>

definition make_point :: "int \<Rightarrow> nat \<times> 'v embedding_record \<Rightarrow> 'v PointStruct" where
  "make_point tot = (\<lambda>(idx, item).
                          \<lparr>point_id = tot + int idx,
                           vector = embedding item,
                           payload_chunk_id = e_chunk_id item,
                           payload_source_page = e_source_page item,
                           payload_token_count = e_token_count item\<rparr>)"

section \<open>A processor that stores its checkpoint as JSON text\<close>

text \<open>
  The processor of the concrete runs above, with the checkpoint file written and read
  as JSON text.  Where the text is not a checkpoint the source raises; this processor
  then starts from the empty checkpoint.
\<close>

definition demo_json_processor ::
  "nat \<Rightarrow> int \<Rightarrow> nat \<Rightarrow> (nat, nat, nat, nat, string, unit) BatchEmbeddingProcessor" where
  "demo_json_processor n bsize fail_from =
     \<lparr>generate_embeddings_batch =
        (\<lambda>s texts. (if fail_from \<le> s then Inl (EmbeddingError ''quota exceeded'')
                     else Inr (map length texts), s + 1)),
      get_usage_stats = (\<lambda>s. s),
      get_all_chunks = demo_chunks n,
      batch_size = bsize,
      time_time = (\<lambda>k. k),
      json_dump = checkpoint_json demo_float_repr,
      json_load = (\<lambda>s. case checkpoint_of_json demo_float_of_str s of
                           Some c \<Rightarrow> c
                         | None \<Rightarrow> empty_checkpoint)\<rparr>"

definition demo_json_world :: "(nat, string) world" where
  "demo_json_world = \<lparr>checkpoint_file = None, service = 0, calls = [], ticks = 7\<rparr>"

text \<open>
  The tokens of a written checkpoint: those of the items of a list, and those of the
  whole document.
\<close>

fun elem_tokens :: "string list \<Rightarrow> token list" where
  "elem_tokens [] = []"
| "elem_tokens [x] = [Str x]"
| "elem_tokens (x # y # ys) = Str x # Comma # elem_tokens (y # ys)"

definition checkpoint_tokens :: "('ts \<Rightarrow> string) \<Rightarrow> 'ts checkpoint \<Rightarrow> token list" where
  "checkpoint_tokens float_repr c =
     [LBrace, Str ''processed_chunk_ids'', Colon, LBrack]
     @ elem_tokens (processed_chunk_ids c)
     @ [RBrack, Comma, Str ''last_batch'', Colon, Num (str_int (last_batch c))]
     @ (case timestamp c of
          None \<Rightarrow> []
        | Some t \<Rightarrow> [Comma, Str ''timestamp'', Colon, Num (float_repr t)])
     @ [RBrace]"

section \<open>Chunk identifiers\<close>

lemma chunk_id_create_chunk:
  "chunk_id (create_chunk ss cid md tc) =
     py_str (dict_get md ''page_number'' (PyInt 0)) @ ''_'' @ str_int (int cid)"
  by (simp add: create_chunk_def Let_def)

lemma ids_from_Nil: "ids_from md c0 []"
  by (simp add: ids_from_def)

lemma ids_from_snoc:
  "ids_from md c0 cs \<Longrightarrow> cid = c0 + length cs \<Longrightarrow>
   ids_from md c0 (cs @ [create_chunk ss cid md tc])"
  by (simp add: ids_from_def chunk_id_create_chunk)

lemma ids_from_append:
  "ids_from md c0 cs \<Longrightarrow> ids_from md (c0 + length cs) ds \<Longrightarrow> ids_from md c0 (cs @ ds)"
proof -
  assume a: "ids_from md c0 cs" and b: "ids_from md (c0 + length cs) ds"
  have "[c0..<c0 + length (cs @ ds)] = [c0..<c0 + length cs] @ [c0 + length cs..<c0 + length cs + length ds]"
    using upt_add_eq_append [of c0 "c0 + length cs" "length ds"] by (simp add: add.assoc)
  with a b show ?thesis by (simp add: ids_from_def)
qed

lemma split_loop_ids:
  "ids_from md c0 acc \<Longrightarrow> cid = c0 + length acc \<Longrightarrow>
   ids_from md c0 (split_loop self md ws acc temp_chunk temp_tokens cid)"
proof (induction ws arbitrary: acc temp_chunk temp_tokens cid)
  case Nil
  then show ?case by (simp add: ids_from_snoc)
next
  case (Cons w ws)
  have snoc: "ids_from md c0 (acc @ [create_chunk [join '' '' temp_chunk] cid md temp_tokens])"
    using Cons.prems by (rule ids_from_snoc)
  show ?case
  proof (cases "temp_tokens + count_tokens self (w @ '' '') > chunk_size self")
    case over: True
    show ?thesis
    proof (cases "temp_chunk = []")
      case True
      with over show ?thesis
        using Cons.IH [OF Cons.prems] by (simp add: Let_def)
    next
      case False
      have "ids_from md c0
              (split_loop self md ws (acc @ [create_chunk [join '' '' temp_chunk] cid md temp_tokens])
                 [w] (count_tokens self (w @ '' '')) (cid + 1))"
        by (rule Cons.IH [OF snoc]) (simp add: Cons.prems)
      with over False show ?thesis by (simp add: Let_def)
    qed
  next
    case False
    then show ?thesis
      using Cons.IH [OF Cons.prems] by (simp add: Let_def)
  qed
qed

lemma split_long_sentence_ids: "ids_from md c0 (split_long_sentence self s md c0)"
  unfolding split_long_sentence_def
  by (rule split_loop_ids) (simp_all add: ids_from_Nil)

lemma ids_inv_init: "ids_inv md chunk_init"
  by (simp add: ids_inv_def chunk_init_def ids_from_Nil)

lemma ids_inv_step:
  assumes "ids_inv md st"
  shows "ids_inv md (chunk_step self md st sentence)"
proof -
  from assms have a: "ids_from md 0 (chunks st)" and b: "next_id st = length (chunks st)"
    by (simp_all add: ids_inv_def)
  have f: "ids_from md 0 (chunks st @ [flush_current md st])"
    unfolding flush_current_def using a b by (intro ids_from_snoc) simp_all
  have w1: "ids_from md 0 (chunks st @ split_long_sentence self sentence md (length (chunks st)))"
    by (rule ids_from_append [OF a]) (simp add: split_long_sentence_ids)
  have w2: "ids_from md 0 ((chunks st @ [flush_current md st])
              @ split_long_sentence self sentence md (Suc (length (chunks st))))"
    by (rule ids_from_append [OF f]) (simp add: split_long_sentence_ids)
  show ?thesis
  proof (cases "count_tokens self sentence > chunk_size self")
    case True
    then show ?thesis
      using a b f w1 w2 by (cases "current_chunk st = []") (simp_all add: chunk_step_def Let_def ids_inv_def)
  next
    case False
    then show ?thesis
      using a b f by (simp add: chunk_step_def Let_def ids_inv_def)
  qed
qed

lemma ids_inv_foldl: "ids_inv md st \<Longrightarrow> ids_inv md (foldl (chunk_step self md) st ss)"
  by (induction ss arbitrary: st) (simp_all add: ids_inv_step)

lemma chunk_finish_ids: "ids_inv md st \<Longrightarrow> ids_from md 0 (chunk_finish md st)"
  by (simp add: chunk_finish_def ids_inv_def flush_current_def ids_from_snoc)

lemma chunk_sentences_ids: "ids_from md 0 (chunk_sentences self md ss)"
  unfolding chunk_sentences_def
  by (intro chunk_finish_ids ids_inv_foldl ids_inv_init)

section \<open>Recorded token counts\<close>

lemma buffer_tokens_Nil: "buffer_tokens self [] 0"
  by (simp add: buffer_tokens_def)

lemma buffer_tokens_snoc:
  assumes "buffer_tokens self ss tc"
  shows "buffer_tokens self (ss @ [s]) (tc + count_tokens self s)"
proof -
  from assms obtain k where k: "k \<le> length ss"
    and tc: "tc = (if k = 0 then 0 else count_tokens self (join '' '' (take k ss)))
                  + (\<Sum>s\<leftarrow>drop k ss. count_tokens self s)"
    by (auto simp: buffer_tokens_def)
  have "k \<le> length (ss @ [s])" using k by simp
  moreover have "tc + count_tokens self s =
      (if k = 0 then 0 else count_tokens self (join '' '' (take k (ss @ [s]))))
      + (\<Sum>x\<leftarrow>drop k (ss @ [s]). count_tokens self x)"
    using k tc by simp
  ultimately show ?thesis unfolding buffer_tokens_def by blast
qed

lemma buffer_tokens_joined:
  "ss \<noteq> [] \<Longrightarrow> buffer_tokens self ss (count_tokens self (join '' '' ss))"
  unfolding buffer_tokens_def
  by (rule exI [of _ "length ss"]) simp

lemma counted_flush:
  "current_chunk st \<noteq> [] \<Longrightarrow> buffer_tokens self (current_chunk st) (current_tokens st) \<Longrightarrow>
   counted self md (flush_current md st)"
  unfolding counted_def sentence_chunk_def flush_current_def by blast

lemma split_loop_counted:
  assumes "\<forall>c\<in>set acc. counted self md c"
    and "temp_tokens = (\<Sum>w\<leftarrow>temp_chunk. count_tokens self (w @ '' ''))"
  shows "\<forall>c\<in>set (split_loop self md ws acc temp_chunk temp_tokens cid). counted self md c"
  using assms
proof (induction ws arbitrary: acc temp_chunk temp_tokens cid)
  case Nil
  have "temp_chunk \<noteq> [] \<Longrightarrow>
        counted self md (create_chunk [join '' '' temp_chunk] cid md temp_tokens)"
    unfolding counted_def word_chunk_def using Nil.prems(2) by blast
  with Nil.prems(1) show ?case by simp
next
  case (Cons w ws)
  have wc: "temp_chunk \<noteq> [] \<Longrightarrow>
        counted self md (create_chunk [join '' '' temp_chunk] cid md temp_tokens)"
    unfolding counted_def word_chunk_def using Cons.prems(2) by blast
  show ?case
  proof (cases "temp_tokens + count_tokens self (w @ '' '') > chunk_size self")
    case over: True
    show ?thesis
    proof (cases "temp_chunk = []")
      case True
      have "\<forall>c\<in>set (split_loop self md ws acc [w] (count_tokens self (w @ '' '')) cid).
              counted self md c"
        by (rule Cons.IH [OF Cons.prems(1)]) simp
      with over True show ?thesis by (simp add: Let_def)
    next
      case False
      have "\<forall>c\<in>set (split_loop self md ws
                 (acc @ [create_chunk [join '' '' temp_chunk] cid md temp_tokens])
                 [w] (count_tokens self (w @ '' '')) (cid + 1)). counted self md c"
        by (rule Cons.IH) (use Cons.prems(1) wc False in auto)
      with over False show ?thesis by (simp add: Let_def)
    qed
  next
    case False
    have "\<forall>c\<in>set (split_loop self md ws acc (temp_chunk @ [w])
                 (temp_tokens + count_tokens self (w @ '' '')) cid). counted self md c"
      by (rule Cons.IH [OF Cons.prems(1)]) (simp add: Cons.prems(2))
    with False show ?thesis by (simp add: Let_def)
  qed
qed

lemma split_long_sentence_counted:
  "\<forall>c\<in>set (split_long_sentence self s md cid). counted self md c"
  unfolding split_long_sentence_def
  by (rule split_loop_counted) simp_all

lemma count_inv_init: "count_inv self md chunk_init"
  by (simp add: count_inv_def chunk_init_def buffer_tokens_Nil)

lemma count_inv_step:
  assumes "count_inv self md st"
  shows "count_inv self md (chunk_step self md st sentence)"
proof -
  from assms have a: "\<forall>c\<in>set (chunks st). counted self md c"
    and b: "buffer_tokens self (current_chunk st) (current_tokens st)"
    by (simp_all add: count_inv_def)
  have f: "current_chunk st \<noteq> [] \<Longrightarrow> counted self md (flush_current md st)"
    using b by (simp add: counted_flush)
  note w = split_long_sentence_counted [of self sentence md]
  show ?thesis
  proof (cases "count_tokens self sentence > chunk_size self")
    case True
    then show ?thesis
      using a b f w
      by (cases "current_chunk st = []")
         (auto simp: chunk_step_def Let_def count_inv_def buffer_tokens_Nil)
  next
    case False
    show ?thesis
    proof (cases "current_tokens st + count_tokens self sentence > chunk_size self")
      case over: True
      have ne: "current_chunk st \<noteq> []"
      proof
        assume "current_chunk st = []"
        with b have "current_tokens st = 0" by (simp add: buffer_tokens_def)
        with over False show False by simp
      qed
      have "buffer_tokens self
              (get_overlap_text self (current_chunk st) (current_tokens st) @ [sentence])
              (count_tokens self (join '' ''
                 (get_overlap_text self (current_chunk st) (current_tokens st) @ [sentence])))"
        by (rule buffer_tokens_joined) simp
      with False over a f [OF ne] show ?thesis
        by (simp add: chunk_step_def Let_def count_inv_def)
    next
      case under: False
      with False a buffer_tokens_snoc [OF b, of sentence] show ?thesis
        by (simp add: chunk_step_def Let_def count_inv_def)
    qed
  qed
qed

lemma count_inv_foldl:
  "count_inv self md st \<Longrightarrow> count_inv self md (foldl (chunk_step self md) st ss)"
  by (induction ss arbitrary: st) (simp_all add: count_inv_step)

lemma chunk_finish_counted:
  "count_inv self md st \<Longrightarrow> \<forall>c\<in>set (chunk_finish md st). counted self md c"
  by (auto simp: chunk_finish_def count_inv_def counted_flush)

lemma chunk_sentences_counted:
  "\<forall>c\<in>set (chunk_sentences self md ss). counted self md c"
  unfolding chunk_sentences_def
  by (intro chunk_finish_counted count_inv_foldl count_inv_init)

lemma counted_made: "counted self md c \<Longrightarrow> made_from md c"
  unfolding counted_def word_chunk_def sentence_chunk_def made_from_def by blast

section \<open>Chunks and their metadata\<close>

lemma str_int_0: "str_int 0 = ''0''"
  by code_simp

lemma source_page_create_chunk:
  "source_page (create_chunk ss cid md tc) = dict_get md ''page_number'' PyNone"
  by (simp add: create_chunk_def Let_def)

lemma chunk_text_made: "\<forall>c\<in>set (chunk_text self txt md). made_from md c"
  using chunk_sentences_counted [of self md "split_text_by_sentences txt"]
  by (auto simp: chunk_text_def dest: counted_made)

lemma chunk_text_nth_id:
  assumes "i < length (chunk_text self txt md)"
  shows "chunk_id (chunk_text self txt md ! i) =
         py_str (dict_get md ''page_number'' (PyInt 0)) @ ''_'' @ str_int (int i)"
proof -
  have "ids_from md 0 (chunk_text self txt md)"
    unfolding chunk_text_def by (rule chunk_sentences_ids)
  then have "map chunk_id (chunk_text self txt md) ! i =
     map (\<lambda>i. py_str (dict_get md ''page_number'' (PyInt 0)) @ ''_'' @ str_int (int i))
       [0..<length (chunk_text self txt md)] ! i"
    by (simp add: ids_from_def)
  with assms show ?thesis by simp
qed

section \<open>The overlap tail and the chunk after a flush\<close>

lemma count_tokens_nonneg: "0 \<le> count_tokens self s"
  by (simp add: count_tokens_def)

lemma tokens_of_nonneg: "0 \<le> tokens_of self ss"
  by (induction ss) (simp_all add: tokens_of_def count_tokens_nonneg)

lemma tokens_of_append: "tokens_of self (xs @ ys) = tokens_of self xs + tokens_of self ys"
  by (simp add: tokens_of_def)

lemma tokens_of_rev: "tokens_of self (rev xs) = tokens_of self xs"
  by (simp add: tokens_of_def rev_map [symmetric])

lemma tokens_of_take_mono:
  assumes "j \<le> k"
  shows "tokens_of self (take j xs) \<le> tokens_of self (take k xs)"
proof -
  have "take k xs = take j xs @ take (k - j) (drop j xs)"
    using assms by (metis le_add_diff_inverse take_add)
  then show ?thesis
    using tokens_of_nonneg [of self "take (k - j) (drop j xs)"] by (simp add: tokens_of_append)
qed

lemma overlap_loop_take:
  "\<exists>k\<le>length xs.
     overlap_loop self xs acc n = rev (take k xs) @ acc \<and>
     (n \<le> overlap self \<longrightarrow> n + tokens_of self (take k xs) \<le> overlap self) \<and>
     (k < length xs \<longrightarrow> overlap self < n + tokens_of self (take (Suc k) xs))"
proof (induction xs arbitrary: acc n)
  case Nil
  show ?case by (simp add: tokens_of_def)
next
  case (Cons x xs)
  show ?case
  proof (cases "n + count_tokens self x \<le> overlap self")
    case True
    from Cons.IH [of "x # acc" "n + count_tokens self x"]
    obtain k where k: "k \<le> length xs"
      and eq: "overlap_loop self xs (x # acc) (n + count_tokens self x) = rev (take k xs) @ x # acc"
      and le: "n + count_tokens self x + tokens_of self (take k xs) \<le> overlap self"
      and gt: "k < length xs \<longrightarrow>
                 overlap self < n + count_tokens self x + tokens_of self (take (Suc k) xs)"
      using True by blast
    show ?thesis
    proof (intro exI [of _ "Suc k"] conjI impI)
      show "Suc k \<le> length (x # xs)" using k by simp
      show "overlap_loop self (x # xs) acc n = rev (take (Suc k) (x # xs)) @ acc"
        using True eq by (simp add: Let_def)
      show "n + tokens_of self (take (Suc k) (x # xs)) \<le> overlap self"
        using le by (simp add: tokens_of_def)
      show "overlap self < n + tokens_of self (take (Suc (Suc k)) (x # xs))"
        if "Suc k < length (x # xs)"
        using that gt by (simp add: tokens_of_def)
    qed
  next
    case False
    show ?thesis
    proof (intro exI [of _ 0] conjI impI)
      show "overlap_loop self (x # xs) acc n = rev (take 0 (x # xs)) @ acc"
        using False by (simp add: Let_def)
      show "overlap self < n + tokens_of self (take (Suc 0) (x # xs))"
        using False by (simp add: tokens_of_def)
    qed (simp_all add: tokens_of_def)
  qed
qed

lemma get_overlap_text_maximal:
  assumes "0 \<le> overlap self"
  shows "suffix (get_overlap_text self ss tc) ss \<and>
         tokens_of self (get_overlap_text self ss tc) \<le> overlap self \<and>
         (\<forall>ys. suffix ys ss \<and> tokens_of self ys \<le> overlap self \<longrightarrow>
               suffix ys (get_overlap_text self ss tc))"
proof -
  from overlap_loop_take [of "rev ss" self "[]" 0]
  obtain k where k: "k \<le> length ss"
    and eq: "get_overlap_text self ss tc = rev (take k (rev ss))"
    and le: "tokens_of self (take k (rev ss)) \<le> overlap self"
    and gt: "k < length ss \<longrightarrow> overlap self < tokens_of self (take (Suc k) (rev ss))"
    using assms by (auto simp: get_overlap_text_def)
  have eq': "get_overlap_text self ss tc = drop (length ss - k) ss"
    by (simp add: eq take_rev)
  have s1: "suffix (get_overlap_text self ss tc) ss"
    by (simp add: eq' suffix_drop)
  have s2: "tokens_of self (get_overlap_text self ss tc) \<le> overlap self"
    using le by (simp add: eq tokens_of_rev)
  have s3: "suffix ys (get_overlap_text self ss tc)"
    if ys: "suffix ys ss" and fit: "tokens_of self ys \<le> overlap self" for ys
  proof -
    from ys obtain zs where ss: "ss = zs @ ys" by (auto simp: suffix_def)
    have ry: "rev ys = take (length ys) (rev ss)" by (simp add: ss)
    have "length ys \<le> k"
    proof (rule ccontr)
      assume "\<not> length ys \<le> k"
      then have lt: "Suc k \<le> length ys" by simp
      then have "k < length ss" by (simp add: ss)
      with gt have "overlap self < tokens_of self (take (Suc k) (rev ss))" by simp
      also have "\<dots> \<le> tokens_of self (take (length ys) (rev ss))"
        using lt by (rule tokens_of_take_mono)
      also have "\<dots> = tokens_of self ys"
        by (simp add: ry [symmetric] tokens_of_rev)
      finally show False using fit by simp
    qed
    then have n: "length ss - k \<le> length zs"
      using k by (simp add: ss)
    have "drop (length ss - k) (zs @ ys) = drop (length ss - k) zs @ ys"
      using n by simp
    then have "get_overlap_text self ss tc = drop (length ss - k) zs @ ys"
      using eq' ss by simp
    then show ?thesis by (auto simp: suffix_def)
  qed
  from s1 s2 s3 show ?thesis by blast
qed

lemma chunk_step_cases:
  assumes "current_chunk st \<noteq> []"
  shows "(chunks (chunk_step self md st s) = chunks st \<and>
          current_chunk (chunk_step self md st s) = current_chunk st @ [s] \<and>
          next_id (chunk_step self md st s) = next_id st) \<or>
         (\<exists>ext. chunks (chunk_step self md st s) = chunks st @ flush_current md st # ext)"
  using assms by (simp add: chunk_step_def Let_def)

lemma chunk_step_prefix: "prefix (chunks st) (chunks (chunk_step self md st s))"
  by (simp add: chunk_step_def Let_def)

lemma chunk_foldl_prefix: "prefix (chunks st) (chunks (foldl (chunk_step self md) st ss))"
proof (induction ss arbitrary: st)
  case Nil
  show ?case by simp
next
  case (Cons s ss)
  have "prefix (chunks st) (chunks (chunk_step self md st s))"
    by (rule chunk_step_prefix)
  also have "prefix \<dots> (chunks (foldl (chunk_step self md) (chunk_step self md st s) ss))"
    by (rule Cons.IH)
  finally show ?case by simp
qed

lemma chunk_finish_prefix: "prefix (chunks st) (chunk_finish md st)"
  by (simp add: chunk_finish_def)

lemma chunk_run_prefix:
  "prefix (chunks st) (chunk_finish md (foldl (chunk_step self md) st ss))"
  using chunk_foldl_prefix [of st self md ss]
    chunk_finish_prefix [of "foldl (chunk_step self md) st ss" md]
  by (rule prefix_order.trans)

lemma prefix_nth_snoc:
  assumes "prefix (xs @ [x]) zs"
  shows "length xs < length zs \<and> zs ! length xs = x"
proof -
  from assms obtain ext where "zs = (xs @ [x]) @ ext" by (auto simp: prefix_def)
  then show ?thesis by (simp add: nth_append)
qed

lemma next_flush:
  assumes "current_chunk st \<noteq> []"
  shows "\<exists>more tc.
           length (chunks st) < length (chunk_finish md (foldl (chunk_step self md) st post)) \<and>
           chunk_finish md (foldl (chunk_step self md) st post) ! length (chunks st) =
             create_chunk (current_chunk st @ more) (next_id st) md tc"
  using assms
proof (induction post arbitrary: st)
  case Nil
  then have "chunk_finish md (foldl (chunk_step self md) st []) =
               chunks st @ [create_chunk (current_chunk st @ []) (next_id st) md (current_tokens st)]"
    by (simp add: chunk_finish_def flush_current_def)
  then show ?case by (metis length_append_singleton lessI nth_append_length)
next
  case (Cons s post)
  let ?st' = "chunk_step self md st s"
  let ?out = "chunk_finish md (foldl (chunk_step self md) st (s # post))"
  have out: "?out = chunk_finish md (foldl (chunk_step self md) ?st' post)" by simp
  from chunk_step_cases [OF Cons.prems, of self md s]
  show ?case
  proof
    assume a: "chunks ?st' = chunks st \<and> current_chunk ?st' = current_chunk st @ [s] \<and>
               next_id ?st' = next_id st"
    then have "current_chunk ?st' \<noteq> []" by simp
    from Cons.IH [OF this] obtain more tc where
      "length (chunks ?st') < length (chunk_finish md (foldl (chunk_step self md) ?st' post))"
      "chunk_finish md (foldl (chunk_step self md) ?st' post) ! length (chunks ?st') =
         create_chunk (current_chunk ?st' @ more) (next_id ?st') md tc"
      by blast
    with a have "length (chunks st) < length ?out \<and>
        ?out ! length (chunks st) = create_chunk (current_chunk st @ s # more) (next_id st) md tc"
      by (simp add: out)
    then show ?thesis by blast
  next
    assume "\<exists>ext. chunks ?st' = chunks st @ flush_current md st # ext"
    then obtain ext where ext: "chunks ?st' = chunks st @ flush_current md st # ext" by blast
    have "prefix (chunks st @ [flush_current md st]) (chunks ?st')"
      by (simp add: ext)
    also have "prefix (chunks ?st') ?out"
      unfolding out by (rule chunk_run_prefix)
    finally have "length (chunks st) < length ?out \<and> ?out ! length (chunks st) = flush_current md st"
      by (rule prefix_nth_snoc)
    then have "length (chunks st) < length ?out \<and>
        ?out ! length (chunks st) =
          create_chunk (current_chunk st @ []) (next_id st) md (current_tokens st)"
      by (simp add: flush_current_def)
    then show ?thesis by blast
  qed
qed


section \<open>The buffer seeded after a flush\<close>

text \<open>
  For any tokenizer: three sentences of which the first two fill a chunk, the second is
  the overlap tail and the third fits the budget alone.  The second chunk holds the
  tail and the third sentence, and its \<open>token_count\<close> is the count of their joined
  text, which nothing compares with \<open>chunk_size\<close>.
\<close>

lemma overlap_seed_unchecked:
  assumes "count_tokens self s1 + count_tokens self s2 \<le> chunk_size self"
    and "chunk_size self < count_tokens self s1 + count_tokens self s2 + count_tokens self s3"
    and "count_tokens self s3 \<le> chunk_size self"
    and "count_tokens self s2 \<le> overlap self"
    and "overlap self < count_tokens self s2 + count_tokens self s1"
  shows "chunk_sentences self md [s1, s2, s3] =
           [create_chunk [s1, s2] 0 md (count_tokens self s1 + count_tokens self s2),
            create_chunk [s2, s3] 1 md (count_tokens self (s2 @ '' '' @ s3))]"
proof -
  have n1: "0 \<le> count_tokens self s1" and n2: "0 \<le> count_tokens self s2"
    by (simp_all add: count_tokens_def)
  have b1: "\<not> chunk_size self < count_tokens self s1"
    and b2: "\<not> chunk_size self < count_tokens self s2"
    using assms(1) n1 n2 by simp_all
  have st1: "chunk_step self md chunk_init s1 =
               \<lparr>chunks = [], current_chunk = [s1], current_tokens = count_tokens self s1,
                next_id = 0\<rparr>"
    using b1 by (simp add: chunk_step_def chunk_init_def Let_def)
  have st2: "chunk_step self md (chunk_step self md chunk_init s1) s2 =
               \<lparr>chunks = [], current_chunk = [s1, s2],
                current_tokens = count_tokens self s1 + count_tokens self s2, next_id = 0\<rparr>"
    unfolding st1 using b2 assms(1) by (simp add: chunk_step_def Let_def)
  have ov: "get_overlap_text self [s1, s2] n = [s2]" for n
    using assms(4,5) by (simp add: get_overlap_text_def Let_def)
  have st3: "chunk_step self md (chunk_step self md (chunk_step self md chunk_init s1) s2) s3 =
               \<lparr>chunks = [create_chunk [s1, s2] 0 md (count_tokens self s1 + count_tokens self s2)],
                current_chunk = [s2, s3],
                current_tokens = count_tokens self (s2 @ '' '' @ s3), next_id = 1\<rparr>"
    unfolding st2 using assms(2,3) by (simp add: chunk_step_def Let_def ov flush_current_def)
  show ?thesis
    by (simp add: chunk_sentences_def st3 chunk_finish_def flush_current_def)
qed

section \<open>Where the recorded token counts come from\<close>














section \<open>Sets, batches and the batch loop\<close>

lemma set_pyset_add: "set (pyset_add s x) = insert x (set s)"
  by (auto simp: pyset_add_def)

lemma set_pyset_update: "set (pyset_update s xs) = set s \<union> set xs"
  unfolding pyset_update_def
  by (induction xs arbitrary: s) (auto simp: set_pyset_add)

lemma set_pyset: "set (pyset xs) = set xs"
  by (simp add: pyset_def set_pyset_update)

lemma concat_takes:
  "concat (map (\<lambda>k. take n (drop (k * n) xs)) [0..<m]) = take (m * n) xs"
proof (induction m)
  case 0
  show ?case by simp
next
  case (Suc m)
  have "take (m * n) xs @ take n (drop (m * n) xs) = take (m * n + n) xs"
    by (simp add: take_add)
  with Suc show ?case by (simp add: add.commute)
qed

lemma batches_of_pos:
  assumes "0 < bsize"
  shows "batches_of bsize xs =
           Inr (map (\<lambda>k. take (nat bsize) (drop (k * nat bsize) xs))
                  [0..<(length xs + nat bsize - 1) div nat bsize])"
  using assms by (simp add: batches_of_def py_range_def comp_def)

lemma ceil_div_covers:
  assumes "0 < (n::nat)"
  shows "l \<le> ((l + n - 1) div n) * n"
proof -
  have "(l + n - 1) mod n < n" using assms by simp
  moreover have "(l + n - 1) div n * n + (l + n - 1) mod n = l + n - 1" by simp
  ultimately show ?thesis by linarith
qed

lemma batches_of_concat:
  assumes "0 < bsize" and "batches_of bsize xs = Inr bs"
  shows "concat bs = xs"
proof -
  let ?n = "nat bsize"
  have n: "0 < ?n" using assms(1) by simp
  from assms have "bs = map (\<lambda>k. take ?n (drop (k * ?n) xs)) [0..<(length xs + ?n - 1) div ?n]"
    by (simp add: batches_of_pos)
  then have "concat bs = take (((length xs + ?n - 1) div ?n) * ?n) xs"
    by (simp add: concat_takes)
  with ceil_div_covers [OF n, of "length xs"] show ?thesis by simp
qed

lemma carried_zip:
  "length vs = length batch \<Longrightarrow>
   map (carried_e \<circ>
        (\<lambda>(c, v). \<lparr>e_chunk_id = chunk_id c, embedding = v,
                      e_source_page = source_page c, e_token_count = token_count c\<rparr>))
     (zip batch vs) = map carried_c batch"
  by (induction batch vs rule: list_induct2') (simp_all add: carried_e_def carried_c_def)

lemma process_batches_success:
  assumes "\<forall>s ts vs s'. generate_embeddings_batch self s ts = (Inr vs, s') \<longrightarrow> length vs = length ts"
    and "process_batches self i bs ed pids w = (Inr (ed', pids'), w')"
  shows "map carried_e ed' = map carried_e ed @ map carried_c (concat bs)"
  using assms(2)
proof (induction bs arbitrary: i ed pids w)
  case Nil
  then show ?case by simp
next
  case (Cons b bs)
  obtain r s' where g: "generate_embeddings_batch self (service w) (map text_field b) = (r, s')"
    by (cases "generate_embeddings_batch self (service w) (map text_field b)")
  show ?case
  proof (cases r)
    case (Inl e)
    with Cons.prems g show ?thesis by (simp add: Let_def)
  next
    case (Inr vs)
    with assms(1) g have len: "length vs = length b" by fastforce
    let ?ed = "ed @ map (\<lambda>(c, v). \<lparr>e_chunk_id = chunk_id c, embedding = v,
                      e_source_page = source_page c, e_token_count = token_count c\<rparr>) (zip b vs)"
    from Cons.prems g Inr obtain w2 where
      "process_batches self (i + 1) bs ?ed (pyset_update pids (map chunk_id b)) w2 = (Inr (ed', pids'), w')"
      by (simp add: Let_def split: if_splits)
    from Cons.IH [OF this] show ?thesis
      by (simp add: carried_zip [OF len])
  qed
qed

lemma process_batches_failure:
  assumes "served self (service w) (map (map text_field) (take k bs)) = Some sk"
    and "k < length bs"
    and "fst (generate_embeddings_batch self sk (map text_field (bs ! k))) = Inl e"
  shows "\<exists>w'. process_batches self i bs ed pids w = (Inl e, w') \<and>
           checkpoint_file w' =
             Some (json_dump self
                     \<lparr>processed_chunk_ids = pyset_update pids (map chunk_id (concat (take k bs))),
                      last_batch = int (i + k),
                      timestamp = Some (time_time self (ticks w' - 1))\<rparr>) \<and>
           calls w' = calls w @ map (map text_field) (take (Suc k) bs)"
  using assms
proof (induction bs arbitrary: k i ed pids w)
  case Nil
  then show ?case by simp
next
  case (Cons b bs)
  obtain r s' where g: "generate_embeddings_batch self (service w) (map text_field b) = (r, s')"
    by (cases "generate_embeddings_batch self (service w) (map text_field b)")
  show ?case
  proof (cases k)
    case 0
    with Cons.prems g have r: "r = Inl e" by simp
    show ?thesis
      using g r 0 by (simp add: Let_def save_checkpoint_def pyset_update_def)
  next
    case (Suc k')
    with Cons.prems(1) g obtain vs where r: "r = Inr vs"
      and sv: "served self s' (map (map text_field) (take k' bs)) = Some sk"
      by (cases r) simp_all
    let ?ed = "ed @ map (\<lambda>(c, v). \<lparr>e_chunk_id = chunk_id c, embedding = v,
                      e_source_page = source_page c, e_token_count = token_count c\<rparr>) (zip b vs)"
    let ?pids = "pyset_update pids (map chunk_id b)"
    let ?w1 = "w\<lparr>service := s', calls := calls w @ [map text_field b]\<rparr>"
    let ?w2 = "if (i + 1) mod 10 = 0 then save_checkpoint self ?pids (int (i + 1)) ?w1 else ?w1"
    have step: "process_batches self i (b # bs) ed pids w =
                  process_batches self (i + 1) bs ?ed ?pids ?w2"
      using g r by (simp add: Let_def)
    have sv2: "served self (service ?w2) (map (map text_field) (take k' bs)) = Some sk"
      using sv by (simp add: save_checkpoint_def)
    have c2: "calls ?w2 = calls w @ [map text_field b]"
      by (simp add: save_checkpoint_def)
    from Cons.prems(2,3) Suc have k': "k' < length bs"
      and f: "fst (generate_embeddings_batch self sk (map text_field (bs ! k'))) = Inl e"
      by simp_all
    from Cons.IH [OF sv2 k' f, of "i + 1" ?ed ?pids]
    obtain w' where
      "process_batches self (i + 1) bs ?ed ?pids ?w2 = (Inl e, w')"
      "checkpoint_file w' =
             Some (json_dump self
                     \<lparr>processed_chunk_ids = pyset_update ?pids (map chunk_id (concat (take k' bs))),
                      last_batch = int (i + 1 + k'),
                      timestamp = Some (time_time self (ticks w' - 1))\<rparr>)"
      "calls w' = calls ?w2 @ map (map text_field) (take (Suc k') bs)"
      by blast
    then show ?thesis
      unfolding step c2 using Suc by (simp add: pyset_update_def)
  qed
qed

lemma process_all_chunks_pending:
  "process_all_chunks self resume w =
     (if pending_chunks self resume w = []
      then (Inr \<lparr>embeddings = [],
                 total_chunks = int (length (get_all_chunks self)),
                 processed = int (length (get_all_chunks self)),
                 skipped = int (length (get_all_chunks self)),
                 embeddings_generated = 0,
                 stats = get_usage_stats self (service w),
                 elapsed_time = NoTime\<rparr>, w)
      else case batches_of (batch_size self) (pending_chunks self resume w) of
             Inl e \<Rightarrow> (Inl e, w)
           | Inr batches \<Rightarrow>
               (case process_batches self 0 batches []
                       (pyset (processed_chunk_ids (start_checkpoint self resume w)))
                       (w\<lparr>ticks := ticks w + 1\<rparr>) of
                  (Inl e, w2) \<Rightarrow> (Inl e, w2)
                | (Inr (embeddings_data, processed_ids'), w2) \<Rightarrow>
                    (if time_time self
                          (ticks (save_checkpoint self processed_ids'
                                    (int (length batches)) w2)) = time_time self (ticks w)
                     then Inl ZeroDivisionError
                     else Inr \<lparr>embeddings = embeddings_data,
                          total_chunks = int (length (get_all_chunks self)),
                          processed = int (length embeddings_data),
                          skipped = int (length processed_ids') - int (length embeddings_data),
                          embeddings_generated = int (length embeddings_data),
                          stats = get_usage_stats self
                                    (service (save_checkpoint self processed_ids'
                                                (int (length batches)) w2)),
                          elapsed_time =
                            Elapsed (time_time self
                                       (ticks (save_checkpoint self processed_ids'
                                                 (int (length batches)) w2)))
                                    (time_time self (ticks w))\<rparr>,
                     (save_checkpoint self processed_ids' (int (length batches)) w2)
                       \<lparr>ticks := ticks (save_checkpoint self processed_ids'
                                          (int (length batches)) w2) + 1\<rparr>)))"
  by (simp add: process_all_chunks_def pending_chunks_def start_checkpoint_def set_pyset Let_def
           split: sum.splits prod.splits)

lemma pending_not_processed:
  "c \<in> set (pending_chunks self resume w) \<Longrightarrow>
   chunk_id c \<notin> set (processed_chunk_ids (start_checkpoint self resume w))"
  by (simp add: pending_chunks_def)

lemma distinct_pending:
  "distinct (map chunk_id (get_all_chunks self)) \<Longrightarrow>
   distinct (map chunk_id (pending_chunks self resume w))"
  by (simp add: pending_chunks_def distinct_map_filter)

lemma batches_of_nonpos: "\<not> 0 < bsize \<Longrightarrow> batches_of bsize xs = Inr bs \<Longrightarrow> bs = []"
  by (auto simp: batches_of_def py_range_def split: if_splits)

lemma pending_batches_nonempty:
  assumes "k < length (pending_batches self resume w)"
  shows "0 < batch_size self"
    and "batches_of (batch_size self) (pending_chunks self resume w) =
           Inr (pending_batches self resume w)"
    and "pending_chunks self resume w \<noteq> []"
proof -
  show pos: "0 < batch_size self"
  proof (rule ccontr)
    assume "\<not> 0 < batch_size self"
    then have "pending_batches self resume w = []"
      by (auto simp: pending_batches_def dest: batches_of_nonpos split: sum.splits)
    with assms show False by simp
  qed
  show b: "batches_of (batch_size self) (pending_chunks self resume w) =
           Inr (pending_batches self resume w)"
    using batches_of_pos [OF pos, of "pending_chunks self resume w"]
    by (simp add: pending_batches_def)
  show "pending_chunks self resume w \<noteq> []"
  proof
    assume "pending_chunks self resume w = []"
    with batches_of_concat [OF pos b] have "concat (pending_batches self resume w) = []" by simp
    moreover have "pending_batches self resume w = []"
      using b pos \<open>pending_chunks self resume w = []\<close>
      by (simp add: batches_of_pos)
    ultimately show False using assms by simp
  qed
qed

section \<open>The checkpoint file read back\<close>

subsection \<open>Digits and integers\<close>

declare str_nat.simps [simp del]

lemma char_eq_code: "c = d \<longleftrightarrow> (of_char c :: nat) = of_char d"
  by (simp add: of_char_eq_iff)

lemma of_char_less_256: "(of_char c :: nat) < 256"
proof -
  have "(of_char c :: nat) \<in> range of_char" by simp
  then show ?thesis unfolding range_nat_of_char by simp
qed

lemma is_digit_facts:
  assumes "is_digit c"
  shows "numchar c" and "c \<notin> set ''.eE''" and "c \<noteq> CHR ''-''" and "c \<noteq> CHR ''.''"
proof -
  from assms have b: "48 \<le> (of_char c :: nat)" "(of_char c :: nat) \<le> 57"
    by (simp_all add: is_digit_def)
  show "numchar c"
    unfolding numchar_def using b by (simp add: char_eq_code) arith
  show "c \<notin> set ''.eE''" using b by (simp add: char_eq_code)
  show "c \<noteq> CHR ''-''" using b by (simp add: char_eq_code)
  show "c \<noteq> CHR ''.''" using b by (simp add: char_eq_code)
qed

lemma digit_char:
  assumes "k < 10"
  shows "is_digit (char_of (48 + k))" and "(of_char (char_of (48 + k)) :: nat) - 48 = k"
    and "(char_of (48 + k) = CHR ''0'') = (k = 0)"
  using assms by (simp_all add: is_digit_def char_eq_code)

lemma str_nat_unfold:
  "str_nat n = (if n < 10 then [char_of (48 + n)]
                else str_nat (n div 10) @ [char_of (48 + n mod 10)])"
  by (rule str_nat.simps)

lemma str_nat_nonempty: "str_nat n \<noteq> []"
  by (subst str_nat_unfold) simp

lemma str_nat_digits: "list_all is_digit (str_nat n)"
proof (induction n rule: str_nat.induct)
  case (1 n)
  show ?case
  proof (cases "n < 10")
    case True
    then show ?thesis by (subst str_nat_unfold) (simp add: digit_char)
  next
    case False
    with 1 show ?thesis by (subst str_nat_unfold) (simp add: digit_char)
  qed
qed

lemma str_nat_value: "foldl (\<lambda>a c. 10 * a + (of_char c - 48)) 0 (str_nat n) = n"
proof (induction n rule: str_nat.induct)
  case (1 n)
  show ?case
  proof (cases "n < 10")
    case True
    then show ?thesis by (subst str_nat_unfold) (simp add: digit_char)
  next
    case False
    with 1 show ?thesis by (subst str_nat_unfold) (simp add: digit_char)
  qed
qed

lemma str_nat_hd: "0 < n \<Longrightarrow> hd (str_nat n) \<noteq> CHR ''0''"
proof (induction n rule: str_nat.induct)
  case (1 n)
  show ?case
  proof (cases "n < 10")
    case True
    with 1(2) show ?thesis by (subst str_nat_unfold) (simp add: digit_char)
  next
    case False
    then have "0 < n div 10" by simp
    with 1(1) False have "hd (str_nat (n div 10)) \<noteq> CHR ''0''" by simp
    with False show ?thesis
      by (subst str_nat_unfold) (simp add: str_nat_nonempty)
  qed
qed

lemma str_nat_0: "str_nat 0 = ''0''"
  by code_simp

lemma nat_of_text_str_nat: "nat_of_text (str_nat n) = Some n"
proof -
  have "length (str_nat n) = 1 \<or> hd (str_nat n) \<noteq> CHR ''0''"
    by (cases "n = 0") (simp_all add: str_nat_0 str_nat_hd)
  then show ?thesis
    by (simp add: nat_of_text_def str_nat_nonempty str_nat_digits str_nat_value)
qed

lemma str_nat_hd_digit: "is_digit (hd (str_nat n))"
  using str_nat_digits [of n] str_nat_nonempty [of n] by (cases "str_nat n") simp_all

lemma int_of_text_str_int: "int_of_text (str_int i) = Some i"
proof (cases "i < 0")
  case True
  then show ?thesis
    by (simp add: str_int_def int_of_text_def nat_of_text_str_nat)
next
  case False
  obtain c ds where cd: "str_nat (nat i) = c # ds"
    using str_nat_nonempty [of "nat i"] by (cases "str_nat (nat i)") auto
  have "c \<noteq> CHR ''-''"
    using str_nat_hd_digit [of "nat i"] cd is_digit_facts(3) [of c] by simp
  with False cd nat_of_text_str_nat [of "nat i"] show ?thesis
    by (simp add: str_int_def int_of_text_def)
qed

lemma str_nat_numchars:
  "list_all numchar (str_nat n)" "\<not> list_ex (\<lambda>c. c \<in> set ''.eE'') (str_nat n)"
  "list_all (\<lambda>c. c \<noteq> CHR ''.'') (str_nat n)"
  using str_nat_digits [of n] is_digit_facts
  by (simp_all add: list_all_iff list_ex_iff del: set_simps)

lemma str_int_numchars:
  "str_int i \<noteq> []" "list_all numchar (str_int i)" "\<not> is_float_text (str_int i)"
proof -
  show "str_int i \<noteq> []" by (simp add: str_int_def str_nat_nonempty)
  show "list_all numchar (str_int i)"
    using str_nat_numchars(1) by (simp add: str_int_def numchar_def)
  show "\<not> is_float_text (str_int i)"
    using str_nat_numchars(2) by (simp add: str_int_def is_float_text_def)
qed

subsection \<open>Scanning strings and numbers\<close>

lemma classify_literals:
  "classify (CHR '' '') = Space" "classify nl = Space"
  "classify (CHR ''{'') = Punct LBrace" "classify (CHR ''}'') = Punct RBrace"
  "classify (CHR ''['') = Punct LBrack" "classify (CHR '']'') = Punct RBrack"
  "classify (CHR '','') = Punct Comma" "classify (CHR '':'') = Punct Colon"
  "classify dq = Quote"
  by (simp_all add: classify_def nl_def dq_def)

lemma classify_numchar: "numchar c \<Longrightarrow> classify c = NumChar"
  by (simp add: classify_def numchar_def dq_def char_eq_code) auto

lemma hexval_hexdigit: "k < 16 \<Longrightarrow> hexval (hexdigit k) = Some k"
  by (simp add: hexval_def hexdigit_def Let_def)

lemma scan_number:
  assumes "list_all numchar num"
  shows "scan (InNum acc) (num @ c # rest) =
           (case classify c of
              NumChar \<Rightarrow> scan (InNum (c # rev num @ acc)) rest
            | Space \<Rightarrow> map_option (Cons (Num (rev acc @ num))) (scan Out rest)
            | Punct t \<Rightarrow> map_option (\<lambda>ts. Num (rev acc @ num) # t # ts) (scan Out rest)
            | Quote \<Rightarrow> map_option (Cons (Num (rev acc @ num))) (scan (InStr []) rest)
            | Other \<Rightarrow> None)"
  using assms
  by (induction num arbitrary: acc) (simp_all add: classify_numchar split: char_class.splits)

lemma scan_number_out:
  assumes "list_all numchar num" and "num \<noteq> []"
  shows "scan Out (num @ c # rest) =
           (case classify c of
              NumChar \<Rightarrow> scan (InNum (c # rev num)) rest
            | Space \<Rightarrow> map_option (Cons (Num num)) (scan Out rest)
            | Punct t \<Rightarrow> map_option (\<lambda>ts. Num num # t # ts) (scan Out rest)
            | Quote \<Rightarrow> map_option (Cons (Num num)) (scan (InStr []) rest)
            | Other \<Rightarrow> None)"
proof -
  from assms obtain d ds where num: "num = d # ds" and d: "numchar d" and ds: "list_all numchar ds"
    by (cases num) auto
  show ?thesis
    using scan_number [OF ds, of "[d]" c rest] d
    by (simp add: num classify_numchar split: char_class.splits)
qed

lemma code_char: "(of_char c :: nat) = k \<Longrightarrow> k < 256 \<Longrightarrow> c = char_of k"
  by (simp add: char_eq_code)

lemma scan_escaped:
  "scan (InStr acc) (escape_char c @ rest) = scan (InStr (c # acc)) rest"
proof -
  let ?n = "of_char c :: nat"
  have lt: "?n < 256" by (rule of_char_less_256)
  show ?thesis
  proof (cases "c = dq \<or> c = bsl")
    case True
    then consider "c = dq" | "c = bsl" by blast
    then show ?thesis
    proof cases
      case 1
      show ?thesis unfolding 1
        by (simp add: escape_char_def unescape_def dq_def bsl_def)
    next
      case 2
      show ?thesis unfolding 2
        by (simp add: escape_char_def unescape_def dq_def bsl_def)
    qed
  next
    case quoted: False
    show ?thesis
    proof (cases "?n \<in> {10, 13, 9, 8, 12}")
      case True
      then consider "c = char_of (10 :: nat)" | "c = char_of (13 :: nat)" | "c = char_of (9 :: nat)"
        | "c = char_of (8 :: nat)" | "c = char_of (12 :: nat)"
        by (auto dest: code_char)
      then show ?thesis
      proof cases
        case 1
        show ?thesis unfolding 1
          by (simp add: escape_char_def unescape_def dq_def bsl_def char_eq_code)
      next
        case 2
        show ?thesis unfolding 2
          by (simp add: escape_char_def unescape_def dq_def bsl_def char_eq_code)
      next
        case 3
        show ?thesis unfolding 3
          by (simp add: escape_char_def unescape_def dq_def bsl_def char_eq_code)
      next
        case 4
        show ?thesis unfolding 4
          by (simp add: escape_char_def unescape_def dq_def bsl_def char_eq_code)
      next
        case 5
        show ?thesis unfolding 5
          by (simp add: escape_char_def unescape_def dq_def bsl_def char_eq_code)
      qed
    next
      case short: False
      show ?thesis
      proof (cases "?n < 32 \<or> 126 < ?n")
        case True
        have h0: "hexval (CHR ''0'') = Some 0" by (simp add: hexval_def)
        have "?n < 16 * 16" using lt by simp
        then have d1: "?n div 16 < 16" by (rule less_mult_imp_div_less)
        have d2: "?n mod 16 < 16" by simp
        have e: "escape_char c =
               [bsl, CHR ''u'', CHR ''0'', CHR ''0'', hexdigit (?n div 16), hexdigit (?n mod 16)]"
          using quoted short True by (simp add: escape_char_def Let_def)
        have "scan (InStr acc) (escape_char c @ rest) =
                scan (InStr (char_of ?n # acc)) rest"
          unfolding e using lt
          by (simp add: h0 hexval_hexdigit [OF d1] hexval_hexdigit [OF d2] bsl_def dq_def)
        then show ?thesis by simp
      next
        case False
        with quoted short show ?thesis by (simp add: escape_char_def Let_def)
      qed
    qed
  qed
qed

lemma scan_string_body:
  "scan (InStr acc) (concat (map escape_char s) @ dq # rest) =
     map_option (Cons (Str (rev acc @ s))) (scan Out rest)"
proof (induction s arbitrary: acc)
  case Nil
  show ?case by simp
next
  case (Cons c s)
  have "scan (InStr acc) (concat (map escape_char (c # s)) @ dq # rest) =
          scan (InStr acc) (escape_char c @ (concat (map escape_char s) @ dq # rest))"
    by simp
  also have "\<dots> = scan (InStr (c # acc)) (concat (map escape_char s) @ dq # rest)"
    by (rule scan_escaped)
  also have "\<dots> = map_option (Cons (Str (rev (c # acc) @ s))) (scan Out rest)"
    by (rule Cons.IH)
  finally show ?case by simp
qed

lemma scan_dump_str:
  "scan Out (dump_str s @ rest) = map_option (Cons (Str s)) (scan Out rest)"
  using scan_string_body [of "[]" s rest]
  by (simp add: dump_str_def classify_literals)

subsection \<open>Scanning a written checkpoint\<close>

lemma scan_joined:
  "xs \<noteq> [] \<Longrightarrow>
   scan Out (join item_sep (map dump_str xs) @ rest) =
     map_option (\<lambda>ts. elem_tokens xs @ ts) (scan Out rest)"
proof (induction xs rule: elem_tokens.induct)
  case 1
  then show ?case by simp
next
  case (2 x)
  show ?case by (simp add: scan_dump_str)
next
  case (3 x y ys)
  have "scan Out (join item_sep (map dump_str (x # y # ys)) @ rest) =
          scan Out (dump_str x @ CHR '','' # nl # CHR '' '' # CHR '' '' # CHR '' '' # CHR '' ''
                      # (join item_sep (map dump_str (y # ys)) @ rest))"
    by (simp add: item_sep_def)
  also have "\<dots> = map_option (Cons (Str x))
                      (map_option (Cons Comma)
                         (scan Out (join item_sep (map dump_str (y # ys)) @ rest)))"
    by (simp add: scan_dump_str classify_literals)
  also have "\<dots> = map_option (Cons (Str x))
                      (map_option (Cons Comma)
                         (map_option (\<lambda>ts. elem_tokens (y # ys) @ ts) (scan Out rest)))"
    using 3 by simp
  also have "\<dots> = map_option (\<lambda>ts. elem_tokens (x # y # ys) @ ts) (scan Out rest)"
    by (cases "scan Out rest") simp_all
  finally show ?case .
qed

lemma scan_dump_str_list:
  "scan Out (dump_str_list xs @ rest) =
     map_option (\<lambda>ts. LBrack # elem_tokens xs @ RBrack # ts) (scan Out rest)"
proof (cases "xs = []")
  case True
  then show ?thesis
    by (cases "scan Out rest") (simp_all add: dump_str_list_def classify_literals)
next
  case False
  have "scan Out (dump_str_list xs @ rest) =
          scan Out (CHR ''['' # nl # CHR '' '' # CHR '' '' # CHR '' '' # CHR '' ''
             # (join item_sep (map dump_str xs)
                  @ (nl # CHR '' '' # CHR '' '' # CHR '']'' # rest)))"
    using False by (simp add: dump_str_list_def)
  also have "\<dots> = map_option (Cons LBrack)
       (map_option (\<lambda>ts. elem_tokens xs @ ts)
          (scan Out (nl # CHR '' '' # CHR '' '' # CHR '']'' # rest)))"
    by (simp add: classify_literals scan_joined [OF False])
  also have "\<dots> = map_option (\<lambda>ts. LBrack # elem_tokens xs @ RBrack # ts) (scan Out rest)"
    by (cases "scan Out rest") (simp_all add: classify_literals)
  finally show ?thesis .
qed

lemma scan_checkpoint_json:
  assumes "\<forall>t. timestamp c = Some t \<longrightarrow>
               float_repr t \<noteq> [] \<and> list_all numchar (float_repr t)"
  shows "scan Out (checkpoint_json float_repr c) = Some (checkpoint_tokens float_repr c)"
proof -
  have tail: "scan Out (nl # ''}'') = Some [RBrace]"
    by (simp add: classify_literals)
  have last: "scan Out
      (case timestamp c of
         None \<Rightarrow> nl # ''}''
       | Some t \<Rightarrow> '','' @ [nl] @ ''  '' @ dump_str ''timestamp'' @ '': '' @ float_repr t @ nl # ''}'')
      = Some ((case timestamp c of
                 None \<Rightarrow> []
               | Some t \<Rightarrow> [Comma, Str ''timestamp'', Colon, Num (float_repr t)]) @ [RBrace])"
  proof (cases "timestamp c")
    case None
    then show ?thesis by (simp add: classify_literals)
  next
    case (Some t)
    from assms Some have f: "list_all numchar (float_repr t)" "float_repr t \<noteq> []" by simp_all
    have "scan Out (float_repr t @ nl # ''}'') = Some [Num (float_repr t), RBrace]"
      by (simp add: scan_number_out [OF f] classify_literals)
    then show ?thesis
      using Some by (simp add: scan_dump_str classify_literals)
  qed
  have num: "scan Out (str_int (last_batch c) @
      (case timestamp c of
         None \<Rightarrow> nl # ''}''
       | Some t \<Rightarrow> '','' @ [nl] @ ''  '' @ dump_str ''timestamp'' @ '': '' @ float_repr t @ nl # ''}''))
      = Some (Num (str_int (last_batch c)) #
              (case timestamp c of
                 None \<Rightarrow> []
               | Some t \<Rightarrow> [Comma, Str ''timestamp'', Colon, Num (float_repr t)]) @ [RBrace])"
  proof (cases "timestamp c")
    case None
    then show ?thesis
      by (simp add: scan_number_out [OF str_int_numchars(2) str_int_numchars(1)] classify_literals)
  next
    case (Some t)
    from assms Some have f: "list_all numchar (float_repr t)" "float_repr t \<noteq> []" by simp_all
    have "scan Out (float_repr t @ nl # ''}'') = Some [Num (float_repr t), RBrace]"
      by (simp add: scan_number_out [OF f] classify_literals)
    then show ?thesis
      using Some
      by (simp add: scan_number_out [OF str_int_numchars(2) str_int_numchars(1)]
            scan_dump_str classify_literals)
  qed
  have "checkpoint_json float_repr c =
          CHR ''{'' # nl # CHR '' '' # CHR '' '' # (dump_str ''processed_chunk_ids''
            @ CHR '':'' # CHR '' '' # (dump_str_list (processed_chunk_ids c)
            @ CHR '','' # nl # CHR '' '' # CHR '' '' # (dump_str ''last_batch''
            @ CHR '':'' # CHR '' '' # (str_int (last_batch c) @
      (case timestamp c of
         None \<Rightarrow> nl # ''}''
       | Some t \<Rightarrow> '','' @ [nl] @ ''  '' @ dump_str ''timestamp'' @ '': '' @ float_repr t @ nl # ''}'')))))"
    by (simp add: checkpoint_json_def split: option.splits)
  then show ?thesis
    by (simp add: scan_dump_str scan_dump_str_list classify_literals num checkpoint_tokens_def)
qed

subsection \<open>Reading a written checkpoint\<close>

declare parse_members.simps [simp del]

lemma parse_elems_strings:
  "xs \<noteq> [] \<Longrightarrow> parse_elems f (elem_tokens xs) = Some (map AStr xs)"
  by (induction xs rule: elem_tokens.induct) simp_all

lemma parse_array_strings: "parse_array f (elem_tokens xs) = Some (map AStr xs)"
proof (cases "xs = []")
  case True
  then show ?thesis by (simp add: parse_array_def)
next
  case False
  then have "elem_tokens xs \<noteq> []" by (cases xs rule: elem_tokens.cases) simp_all
  with False show ?thesis by (simp add: parse_array_def parse_elems_strings)
qed

lemma elem_tokens_no_bracket: "\<forall>u\<in>set (elem_tokens xs). u \<noteq> RBrack"
  by (induction xs rule: elem_tokens.induct) simp_all

lemma parse_member_list:
  "parse_member f (Str k # Colon # LBrack # elem_tokens xs @ RBrack # rest) =
     Some ((k, Arr (map AStr xs)), rest)"
proof -
  have t: "takeWhile (\<lambda>u. u \<noteq> RBrack) (elem_tokens xs @ RBrack # rest) = elem_tokens xs"
    using elem_tokens_no_bracket [of xs] by (simp add: takeWhile_append2)
  have d: "dropWhile (\<lambda>u. u \<noteq> RBrack) (elem_tokens xs @ RBrack # rest) = RBrack # rest"
    using elem_tokens_no_bracket [of xs] by (simp add: dropWhile_append2)
  show ?thesis
    by (simp add: parse_member_def t d parse_array_strings)
qed

lemma parse_member_int:
  "parse_member f (Str k # Colon # Num (str_int n) # rest) = Some ((k, Atom (AInt n)), rest)"
  by (simp add: parse_member_def str_int_numchars int_of_text_str_int)

lemma parse_member_float:
  assumes "float_of_str (float_repr t) = Some t" and "is_float_text (float_repr t)"
  shows "parse_member float_of_str (Str k # Colon # Num (float_repr t) # rest) =
           Some ((k, Atom (AFloat t)), rest)"
  using assms by (simp add: parse_member_def)

lemma parse_members_last:
  "parse_member f ts = Some (kv, [RBrace]) \<Longrightarrow> parse_members f ts = Some [kv]"
  by (subst parse_members.simps) simp

lemma parse_members_more:
  "parse_member f ts = Some (kv, Comma # rest) \<Longrightarrow>
   parse_members f ts = map_option (Cons kv) (parse_members f rest)"
  by (subst parse_members.simps) simp

lemma strings_of_strings: "strings_of (map AStr xs) = Some xs"
  by (induction xs) simp_all

lemma parse_checkpoint_tokens:
  assumes "\<forall>t. timestamp c = Some t \<longrightarrow>
               float_of_str (float_repr t) = Some t \<and> is_float_text (float_repr t)"
  shows "parse_object float_of_str (checkpoint_tokens float_repr c) =
           Some ([(''processed_chunk_ids'', Arr (map AStr (processed_chunk_ids c))),
                  (''last_batch'', Atom (AInt (last_batch c)))]
                 @ (case timestamp c of
                      None \<Rightarrow> []
                    | Some t \<Rightarrow> [(''timestamp'', Atom (AFloat t))]))"
proof -
  let ?f = float_of_str
  let ?ids = "processed_chunk_ids c"
  let ?n = "last_batch c"
  let ?tail = "(case timestamp c of
                  None \<Rightarrow> []
                | Some t \<Rightarrow> [Comma, Str ''timestamp'', Colon, Num (float_repr t)]) @ [RBrace]"
  let ?m2 = "Str ''last_batch'' # Colon # Num (str_int ?n) # ?tail"
  let ?m1 = "Str ''processed_chunk_ids'' # Colon # LBrack # elem_tokens ?ids @ RBrack # Comma # ?m2"
  have toks: "checkpoint_tokens float_repr c = LBrace # ?m1"
    by (simp add: checkpoint_tokens_def)
  have second: "parse_members ?f ?m2 =
       Some ((''last_batch'', Atom (AInt ?n))
             # (case timestamp c of None \<Rightarrow> [] | Some t \<Rightarrow> [(''timestamp'', Atom (AFloat t))]))"
  proof (cases "timestamp c")
    case None
    have "parse_member ?f (Str ''last_batch'' # Colon # Num (str_int ?n) # [RBrace]) =
            Some ((''last_batch'', Atom (AInt ?n)), [RBrace])"
      by (rule parse_member_int)
    then have "parse_members ?f (Str ''last_batch'' # Colon # Num (str_int ?n) # [RBrace]) =
            Some [(''last_batch'', Atom (AInt ?n))]"
      by (rule parse_members_last)
    with None show ?thesis by simp
  next
    case (Some t)
    let ?m3 = "Str ''timestamp'' # Colon # Num (float_repr t) # [RBrace]"
    have "parse_member ?f ?m3 = Some ((''timestamp'', Atom (AFloat t)), [RBrace])"
      using assms Some by (intro parse_member_float) simp_all
    then have third: "parse_members ?f ?m3 = Some [(''timestamp'', Atom (AFloat t))]"
      by (rule parse_members_last)
    have "parse_member ?f (Str ''last_batch'' # Colon # Num (str_int ?n) # Comma # ?m3) =
            Some ((''last_batch'', Atom (AInt ?n)), Comma # ?m3)"
      by (rule parse_member_int)
    then have "parse_members ?f (Str ''last_batch'' # Colon # Num (str_int ?n) # Comma # ?m3) =
            map_option (Cons (''last_batch'', Atom (AInt ?n))) (parse_members ?f ?m3)"
      by (rule parse_members_more)
    with Some third show ?thesis by simp
  qed
  have "parse_member ?f ?m1 = Some ((''processed_chunk_ids'', Arr (map AStr ?ids)), Comma # ?m2)"
    by (rule parse_member_list)
  then have "parse_members ?f ?m1 =
       map_option (Cons (''processed_chunk_ids'', Arr (map AStr ?ids))) (parse_members ?f ?m2)"
    by (rule parse_members_more)
  with second have first: "parse_members ?f ?m1 =
       Some ([(''processed_chunk_ids'', Arr (map AStr ?ids)), (''last_batch'', Atom (AInt ?n))]
             @ (case timestamp c of None \<Rightarrow> [] | Some t \<Rightarrow> [(''timestamp'', Atom (AFloat t))]))"
    by simp
  have "?m1 \<noteq> [RBrace]" by simp
  with first show ?thesis
    unfolding toks by (simp add: parse_object_def)
qed

lemma checkpoint_of_written_members:
  "checkpoint_of_members
     ([(''processed_chunk_ids'', Arr (map AStr (processed_chunk_ids c))),
       (''last_batch'', Atom (AInt (last_batch c)))]
      @ (case timestamp c of None \<Rightarrow> [] | Some t \<Rightarrow> [(''timestamp'', Atom (AFloat t))]))
   = Some (c :: 'ts checkpoint)"
  by (cases "timestamp c") (simp_all add: checkpoint_of_members_def strings_of_strings)

lemma checkpoint_of_json_written:
  assumes "\<forall>t. timestamp c = Some t \<longrightarrow>
               float_repr t \<noteq> [] \<and> list_all numchar (float_repr t) \<and>
               is_float_text (float_repr t) \<and> float_of_str (float_repr t) = Some t"
  shows "checkpoint_of_json float_of_str (checkpoint_json float_repr c) = Some (c :: 'ts checkpoint)"
proof -
  have s: "scan Out (checkpoint_json float_repr c) = Some (checkpoint_tokens float_repr c)"
    using assms by (intro scan_checkpoint_json) simp
  have p: "parse_object float_of_str (checkpoint_tokens float_repr c) =
           Some ([(''processed_chunk_ids'', Arr (map AStr (processed_chunk_ids c))),
                  (''last_batch'', Atom (AInt (last_batch c)))]
                 @ (case timestamp c of
                      None \<Rightarrow> []
                    | Some t \<Rightarrow> [(''timestamp'', Atom (AFloat t))]))"
    using assms by (intro parse_checkpoint_tokens) simp
  show ?thesis
    by (simp only: checkpoint_of_json_def s p option.case checkpoint_of_written_members)
qed

lemma demo_float_text:
  "demo_float_repr n \<noteq> []" "list_all numchar (demo_float_repr n)"
  "is_float_text (demo_float_repr n)"
  by (simp_all add: demo_float_repr_def str_nat_numchars is_float_text_def numchar_def)

lemma demo_float_round_trip: "demo_float_of_str (demo_float_repr n) = Some n"
proof -
  have d: "\<forall>c\<in>set (str_nat n). c \<noteq> CHR ''.''"
    using str_nat_numchars(3) [of n] by (simp add: list_all_iff)
  from d have "dropWhile (\<lambda>c. c \<noteq> CHR ''.'') (str_nat n @ ''.0'') = ''.0''"
    by (simp add: dropWhile_append2)
  moreover from d have "takeWhile (\<lambda>c. c \<noteq> CHR ''.'') (str_nat n @ ''.0'') = str_nat n"
    by (simp add: takeWhile_append2)
  ultimately show ?thesis
    by (simp only: demo_float_of_str_def demo_float_repr_def nat_of_text_str_nat simp_thms if_True)
qed

text \<open>The reader on other documents: a missing key is refused, the timestamp may be absent.\<close>

lemma reader_examples:
  "checkpoint_of_json demo_float_of_str ''{}'' = (None :: nat checkpoint option)"
  "checkpoint_of_json demo_float_of_str (''{'' @ [dq] @ ''last_batch'' @ [dq] @ '': 4}'')
     = (None :: nat checkpoint option)"
  "checkpoint_of_json demo_float_of_str
     (''{'' @ [dq] @ ''processed_chunk_ids'' @ [dq] @ '': [], '' @ [dq] @ ''last_batch'' @ [dq] @ '': 4}'')
     = Some \<lparr>processed_chunk_ids = [], last_batch = 4, timestamp = (None :: nat option)\<rparr>"
  by code_simp+

section \<open>Point identifiers of an upload\<close>

lemma upsert_batch_points:
  "upsert_batch data bsize (tot, ups) i =
     (tot + int (length (take (nat bsize) (drop i data))),
      ups @ [map (make_point tot) (enumerate 0 (take (nat bsize) (drop i data)))])"
  by (simp add: upsert_batch_def Let_def make_point_def)

lemma enumerate_point_ids:
  "map point_id (map (make_point tot) (enumerate n xs)) =
     map (\<lambda>j. tot + int j) [n..<n + length xs]"
proof (induction xs arbitrary: n)
  case Nil
  show ?case by simp
next
  case (Cons x xs)
  have "[n..<n + Suc (length xs)] = n # [Suc n..<n + Suc (length xs)]"
    by (rule upt_conv_Cons) simp
  then have "[n..<n + length (x # xs)] = n # [Suc n..<Suc n + length xs]"
    by simp
  with Cons [of "Suc n"] show ?case by (simp add: make_point_def)
qed

lemma enumerate_point_chunk_ids:
  "map payload_chunk_id (map (make_point tot) (enumerate n xs)) = map e_chunk_id xs"
  by (induction xs arbitrary: n) (simp_all add: make_point_def)

lemma shifted_upt: "map (\<lambda>j. int a + int j) [0..<b] = map int [a..<a + b]"
proof -
  have "map int [a..<a + b] = map int (map (\<lambda>j. j + a) [0..<b])"
    by (simp add: map_add_upt add.commute)
  then show ?thesis by (simp add: comp_def add.commute)
qed

lemma upsert_fold:
  assumes n: "0 < n" and nb: "n = nat bsize"
    and m: "m \<le> (length data + n - 1) div n"
  shows "\<exists>new. foldl (upsert_batch data bsize) (0, ups) (map (\<lambda>k. k * n) [0..<m]) =
                 (int (length (take (m * n) data)), ups @ new) \<and>
               map point_id (concat new) = map int [0..<length (take (m * n) data)] \<and>
               map payload_chunk_id (concat new) = map e_chunk_id (take (m * n) data)"
  using m
proof (induction m)
  case 0
  show ?case by simp
next
  case (Suc m)
  from Suc.prems have "Suc m * n \<le> (length data + n - 1) div n * n"
    by (rule mult_le_mono1)
  also have "\<dots> \<le> length data + n - 1" by simp
  finally have lt: "m * n < length data" using n by simp
  then have len: "length (take (m * n) data) = m * n" by simp
  from Suc.IH [OF Suc_leD [OF Suc.prems]] obtain new where
    f: "foldl (upsert_batch data bsize) (0, ups) (map (\<lambda>k. k * n) [0..<m]) =
          (int (m * n), ups @ new)"
    and ids: "map point_id (concat new) = map int [0..<m * n]"
    and cids: "map payload_chunk_id (concat new) = map e_chunk_id (take (m * n) data)"
    unfolding len by auto
  let ?batch = "take n (drop (m * n) data)"
  let ?pts = "map (make_point (int (m * n))) (enumerate 0 ?batch)"
  have "Suc m * n = m * n + n" by simp
  then have tk: "take (Suc m * n) data = take (m * n) data @ ?batch"
    by (simp only: take_add)
  have l2: "length (take (Suc m * n) data) = m * n + length ?batch"
    unfolding tk using len by simp
  have step: "foldl (upsert_batch data bsize) (0, ups) (map (\<lambda>k. k * n) [0..<Suc m]) =
                (int (length (take (Suc m * n) data)), ups @ (new @ [?pts]))"
  proof -
    have "foldl (upsert_batch data bsize) (0, ups) (map (\<lambda>k. k * n) [0..<Suc m]) =
            upsert_batch data bsize (int (m * n), ups @ new) (m * n)"
      using f by simp
    also have "\<dots> = (int (m * n) + int (length ?batch), (ups @ new) @ [?pts])"
      unfolding upsert_batch_points nb [symmetric] ..
    also have "int (m * n) + int (length ?batch) = int (length (take (Suc m * n) data))"
      by (simp only: l2 of_nat_add)
    finally show ?thesis by (simp del: length_take mult_Suc)
  qed
  have pid: "map point_id ?pts = map int [m * n..<m * n + length ?batch]"
    using enumerate_point_ids [of "int (m * n)" 0 ?batch] shifted_upt [of "m * n" "length ?batch"]
    by simp
  have i2: "map point_id (concat (new @ [?pts])) = map int [0..<length (take (Suc m * n) data)]"
  proof -
    have "[0..<m * n + length ?batch] = [0..<m * n] @ [m * n..<m * n + length ?batch]"
      using upt_add_eq_append [of 0 "m * n" "length ?batch"] by simp
    then show ?thesis unfolding l2 using ids pid by simp
  qed
  have c2: "map payload_chunk_id (concat (new @ [?pts])) = map e_chunk_id (take (Suc m * n) data)"
    unfolding tk using cids enumerate_point_chunk_ids [of "int (m * n)" 0 ?batch] by simp
  from step i2 c2 show ?case by blast
qed

section \<open>Properties of the chunker\<close>

text \<open>
  C1.  Claim: every chunk emitted by \<open>chunk_text\<close> has \<open>token_count \<le> chunk_size\<close>,
  unless it is formed from a single sentence or word that alone exceeds \<open>chunk_size\<close>.
  The code does not keep this bound for a buffer that was seeded with an overlap tail:
  after a flush the new buffer is the tail plus the current sentence, and its token
  count is never compared with \<open>chunk_size\<close>.  With \<open>chunk_size = 10\<close>,
  \<open>overlap = 5\<close> and one token per character, the text below has three sentences of
  5, 5 and 7 tokens, none above the budget; the second chunk holds the sentences
  \<open>Bbbb.\<close> and \<open>Cccccc.\<close> and records 13 tokens.
\<close>

theorem chunk_text_overlap_exceeds_budget:
  "map (\<lambda>c. (chunk_id c, text_field c, token_count c))
     (chunk_text \<lparr>chunk_size = 10, overlap = 5, encoding = char_tokens\<rparr>
        ''Aaaa. Bbbb. Cccccc.'' [''page_number'' \<mapsto> PyInt 1])
   = [(''1_0'', ''Aaaa. Bbbb.'', 10), (''1_1'', ''Bbbb. Cccccc.'', 13)]"
  by code_simp

text \<open>
  C4.  The chunk identifiers of one source unit depend only on the unit's
  \<open>page_number\<close> and on the position of the chunk: the i-th chunk emitted by
  \<open>chunk_text\<close> (counting from 0) has the identifier \<open>"{page_number}_{i}"\<close>, where a
  missing \<open>page_number\<close> prints as 0.  \<open>chunk_text\<close> is a function of the chunker's
  parameters (tokenizer included), the text and the metadata, so two runs on equal
  inputs give equal chunk lists, and with them equal identifiers in equal order.
\<close>

theorem chunk_text_ids:
  "map chunk_id (chunk_text self txt md) =
     map (\<lambda>i. py_str (dict_get md ''page_number'' (PyInt 0)) @ ''_'' @ str_int (int i))
       [0..<length (chunk_text self txt md)]"
  using chunk_sentences_ids [of md self "split_text_by_sentences txt"]
  by (simp add: chunk_text_def ids_from_def)

text \<open>
  C10.  When the metadata of a call has no \<open>page_number\<close> key, every chunk of the
  call has an identifier that starts with \<open>0_\<close> and \<open>source_page = None\<close>.  Two
  such calls, whatever their texts and parameters, give their i-th chunks the same
  identifier, so identifiers are unique across units only when the units carry distinct
  numbers.
\<close>

theorem chunk_text_without_page_number:
  assumes "md ''page_number'' = None" and "md' ''page_number'' = None"
  shows "(\<forall>c\<in>set (chunk_text self txt md).
            take 2 (chunk_id c) = ''0_'' \<and> source_page c = PyNone) \<and>
         (\<forall>i. i < length (chunk_text self txt md) \<and> i < length (chunk_text self' txt' md') \<longrightarrow>
            chunk_id (chunk_text self txt md ! i) = chunk_id (chunk_text self' txt' md' ! i))"
proof (intro conjI ballI allI impI)
  fix c assume "c \<in> set (chunk_text self txt md)"
  then obtain ss cid tc where c: "c = create_chunk ss cid md tc"
    using chunk_text_made [of self "txt" md] by (auto simp: made_from_def)
  show "take 2 (chunk_id c) = ''0_''"
    using assms(1) by (simp add: c chunk_id_create_chunk dict_get_def str_int_0)
  show "source_page c = PyNone"
    using assms(1) by (simp add: c source_page_create_chunk dict_get_def)
next
  fix i
  assume "i < length (chunk_text self txt md) \<and> i < length (chunk_text self' txt' md')"
  then show "chunk_id (chunk_text self txt md ! i) = chunk_id (chunk_text self' txt' md' ! i)"
    using assms by (simp add: chunk_text_nth_id dict_get_def)
qed

theorem chunk_text_without_page_number_witness:
  "(Map.empty :: metadata) ''page_number'' = None \<and>
   [''original_char_count'' \<mapsto> PyInt 7] ''page_number'' = None \<and>
   chunk_text \<lparr>chunk_size = 10, overlap = 5, encoding = char_tokens\<rparr>
       ''Aaaa. Bbbb. Cccccc.'' Map.empty ! 0
     \<in> set (chunk_text \<lparr>chunk_size = 10, overlap = 5, encoding = char_tokens\<rparr>
              ''Aaaa. Bbbb. Cccccc.'' Map.empty) \<and>
   length (chunk_text \<lparr>chunk_size = 10, overlap = 5, encoding = char_tokens\<rparr>
       ''Aaaa. Bbbb. Cccccc.'' Map.empty) = 2 \<and>
   length (chunk_text \<lparr>chunk_size = 10, overlap = 5, encoding = char_tokens\<rparr>
       ''Dddd.'' [''original_char_count'' \<mapsto> PyInt 7]) = 1 \<and>
   take 2 (chunk_id (chunk_text \<lparr>chunk_size = 10, overlap = 5, encoding = char_tokens\<rparr>
       ''Aaaa. Bbbb. Cccccc.'' Map.empty ! 0)) = ''0_'' \<and>
   source_page (chunk_text \<lparr>chunk_size = 10, overlap = 5, encoding = char_tokens\<rparr>
       ''Aaaa. Bbbb. Cccccc.'' Map.empty ! 0) = PyNone \<and>
   chunk_id (chunk_text \<lparr>chunk_size = 10, overlap = 5, encoding = char_tokens\<rparr>
       ''Aaaa. Bbbb. Cccccc.'' Map.empty ! 0) =
   chunk_id (chunk_text \<lparr>chunk_size = 10, overlap = 5, encoding = char_tokens\<rparr>
       ''Dddd.'' [''original_char_count'' \<mapsto> PyInt 7] ! 0)"
proof -
  let ?p = "\<lparr>chunk_size = 10, overlap = 5, encoding = char_tokens\<rparr>"
  let ?a = "chunk_text ?p ''Aaaa. Bbbb. Cccccc.'' Map.empty"
  let ?b = "chunk_text ?p ''Dddd.'' [''original_char_count'' \<mapsto> PyInt 7]"
  have h1: "(Map.empty :: metadata) ''page_number'' = None" by simp
  have h2: "[''original_char_count'' \<mapsto> PyInt 7] ''page_number'' = None" by simp
  have la: "length ?a = 2" by code_simp
  have lb: "length ?b = 1" by code_simp
  have mem: "?a ! 0 \<in> set ?a" using la by simp
  note t = chunk_text_without_page_number
    [of Map.empty "[''original_char_count'' \<mapsto> PyInt 7]" ?p "''Aaaa. Bbbb. Cccccc.''" ?p "''Dddd.''",
     OF h1 h2]
  from t mem have c1: "take 2 (chunk_id (?a ! 0)) = ''0_'' \<and> source_page (?a ! 0) = PyNone"
    by blast
  from t la lb have c2: "chunk_id (?a ! 0) = chunk_id (?b ! 0)" by simp
  from h1 h2 mem la lb c1 c2 show ?thesis by blast
qed


text \<open>
  C5.  Let the sentence loop reach \<open>sentence\<close> in state \<open>st\<close> (after the sentences
  \<open>pre\<close>), and let \<open>sentence\<close> take the flush branch: it fits the budget alone but
  not together with the buffer.  Then the chunk emitted at that point (chunk i) is the
  buffer \<open>current_chunk st\<close>, the next chunk of the output (chunk i+1) exists and its
  sentences start with the overlap tail of the buffer followed by \<open>sentence\<close>, and for
  \<open>overlap > 0\<close> that tail is the longest suffix of the buffer whose sentences' token
  counts sum to at most \<open>overlap\<close>.
\<close>

theorem overlap_tail_leads_next_chunk:
  assumes "0 < overlap self"
    and "split_text_by_sentences t = pre @ sentence # post"
    and "st = foldl (chunk_step self md) chunk_init pre"
    and "\<not> chunk_size self < count_tokens self sentence"
    and "chunk_size self < current_tokens st + count_tokens self sentence"
  shows "\<exists>more tc.
     length (chunks st) + 1 < length (chunk_text self t md) \<and>
     chunk_text self t md ! length (chunks st) =
       create_chunk (current_chunk st) (next_id st) md (current_tokens st) \<and>
     chunk_text self t md ! (length (chunks st) + 1) =
       create_chunk (get_overlap_text self (current_chunk st) (current_tokens st) @ sentence # more)
         (next_id st + 1) md tc \<and>
     suffix (get_overlap_text self (current_chunk st) (current_tokens st)) (current_chunk st) \<and>
     tokens_of self (get_overlap_text self (current_chunk st) (current_tokens st)) \<le> overlap self \<and>
     (\<forall>ys. suffix ys (current_chunk st) \<and> tokens_of self ys \<le> overlap self \<longrightarrow>
           suffix ys (get_overlap_text self (current_chunk st) (current_tokens st)))"
proof -
  let ?tail = "get_overlap_text self (current_chunk st) (current_tokens st)"
  let ?st' = "chunk_step self md st sentence"
  let ?out = "chunk_text self t md"
  have out: "?out = chunk_finish md (foldl (chunk_step self md) ?st' post)"
    by (simp add: chunk_text_def chunk_sentences_def assms(2) assms(3))
  have ch: "chunks ?st' = chunks st @ [flush_current md st]"
    and cur: "current_chunk ?st' = ?tail @ [sentence]"
    and nid: "next_id ?st' = next_id st + 1"
    using assms(4,5) by (simp_all add: chunk_step_def Let_def)
  have "prefix (chunks ?st') ?out"
    unfolding out by (rule chunk_run_prefix)
  then have "length (chunks st) < length ?out \<and> ?out ! length (chunks st) = flush_current md st"
    unfolding ch by (rule prefix_nth_snoc)
  then have first: "?out ! length (chunks st) =
       create_chunk (current_chunk st) (next_id st) md (current_tokens st)"
    by (simp add: flush_current_def)
  have "current_chunk ?st' \<noteq> []" by (simp add: cur)
  from next_flush [OF this, of md self post] obtain more tc where
    "length (chunks ?st') < length ?out"
    "?out ! length (chunks ?st') = create_chunk (current_chunk ?st' @ more) (next_id ?st') md tc"
    unfolding out by blast
  then have second: "length (chunks st) + 1 < length ?out"
    "?out ! (length (chunks st) + 1) = create_chunk (?tail @ sentence # more) (next_id st + 1) md tc"
    by (simp_all add: ch cur nid)
  have "0 \<le> overlap self" using assms(1) by simp
  note mx = get_overlap_text_maximal [OF this, of "current_chunk st" "current_tokens st"]
  from first second mx show ?thesis by blast
qed

theorem overlap_tail_leads_next_chunk_witness:
  "0 < overlap \<lparr>chunk_size = 10, overlap = 5, encoding = char_tokens\<rparr> \<and>
   split_text_by_sentences ''Aaaa. Bbbb. Cccccc.'' = [''Aaaa.'', ''Bbbb.''] @ ''Cccccc.'' # [] \<and>
   \<not> chunk_size \<lparr>chunk_size = 10, overlap = 5, encoding = char_tokens\<rparr>
       < count_tokens \<lparr>chunk_size = 10, overlap = 5, encoding = char_tokens\<rparr> ''Cccccc.'' \<and>
   chunk_size \<lparr>chunk_size = 10, overlap = 5, encoding = char_tokens\<rparr>
     < current_tokens (foldl (chunk_step \<lparr>chunk_size = 10, overlap = 5, encoding = char_tokens\<rparr>
                                [''page_number'' \<mapsto> PyInt 1]) chunk_init [''Aaaa.'', ''Bbbb.''])
       + count_tokens \<lparr>chunk_size = 10, overlap = 5, encoding = char_tokens\<rparr> ''Cccccc.'' \<and>
   current_chunk (foldl (chunk_step \<lparr>chunk_size = 10, overlap = 5, encoding = char_tokens\<rparr>
                                [''page_number'' \<mapsto> PyInt 1]) chunk_init [''Aaaa.'', ''Bbbb.''])
     = [''Aaaa.'', ''Bbbb.''] \<and>
   get_overlap_text \<lparr>chunk_size = 10, overlap = 5, encoding = char_tokens\<rparr>
     [''Aaaa.'', ''Bbbb.''] 10 = [''Bbbb.''] \<and>
   (\<exists>more tc.
      chunk_text \<lparr>chunk_size = 10, overlap = 5, encoding = char_tokens\<rparr>
          ''Aaaa. Bbbb. Cccccc.'' [''page_number'' \<mapsto> PyInt 1] ! 1 =
        create_chunk ([''Bbbb.''] @ ''Cccccc.'' # more) 1 [''page_number'' \<mapsto> PyInt 1] tc)"
proof -
  let ?p = "\<lparr>chunk_size = 10, overlap = 5, encoding = char_tokens\<rparr>"
  let ?md = "[''page_number'' \<mapsto> PyInt 1]"
  let ?st = "foldl (chunk_step ?p ?md) chunk_init [''Aaaa.'', ''Bbbb.'']"
  have h1: "0 < overlap ?p" by simp
  have h2: "split_text_by_sentences ''Aaaa. Bbbb. Cccccc.'' = [''Aaaa.'', ''Bbbb.''] @ ''Cccccc.'' # []"
    by code_simp
  have h4: "\<not> chunk_size ?p < count_tokens ?p ''Cccccc.''" by code_simp
  have h5: "chunk_size ?p < current_tokens ?st + count_tokens ?p ''Cccccc.''" by code_simp
  have cur: "current_chunk ?st = [''Aaaa.'', ''Bbbb.'']" by code_simp
  have tok: "current_tokens ?st = 10" by code_simp
  have nid: "next_id ?st = 0" by code_simp
  have len: "length (chunks ?st) = 0" by code_simp
  have ov: "get_overlap_text ?p [''Aaaa.'', ''Bbbb.''] 10 = [''Bbbb.'']" by code_simp
  from overlap_tail_leads_next_chunk [OF h1 h2 refl h4 h5]
  have "\<exists>more tc. chunk_text ?p ''Aaaa. Bbbb. Cccccc.'' ?md ! 1 =
          create_chunk ([''Bbbb.''] @ ''Cccccc.'' # more) 1 ?md tc"
    unfolding cur tok nid len ov by auto
  with h1 h2 h4 h5 cur ov show ?thesis by blast
qed



section \<open>Properties of the batch processor\<close>

text \<open>
  C3.  A run with \<open>resume = True\<close> that finds every stored chunk in the loaded
  checkpoint returns at once, as a success: the embeddings are empty, the three counts
  equal the number of stored chunks, none were generated, and the world is the one the
  run started in, so no call reached the embedding service and the checkpoint file is
  untouched.
\<close>

theorem nothing_pending_is_success:
  assumes "\<forall>c\<in>set (get_all_chunks self).
             chunk_id c \<in> set (processed_chunk_ids (load_checkpoint self w))"
  shows "process_all_chunks self True w =
           (Inr \<lparr>embeddings = [],
                 total_chunks = int (length (get_all_chunks self)),
                 processed = int (length (get_all_chunks self)),
                 skipped = int (length (get_all_chunks self)),
                 embeddings_generated = 0,
                 stats = get_usage_stats self (service w),
                 elapsed_time = NoTime\<rparr>, w)"
proof -
  have "pending_chunks self True w = []"
    using assms by (simp add: pending_chunks_def start_checkpoint_def filter_empty_conv)
  then show ?thesis by (simp add: process_all_chunks_pending)
qed

theorem nothing_pending_is_success_witness:
  "chunk_id ` set (get_all_chunks (demo_processor 5 2 9))
     \<subseteq> set (processed_chunk_ids
        (load_checkpoint (demo_processor 5 2 9)
           (snd (process_all_chunks (demo_processor 5 2 9) True demo_world)))) \<and>
   snd (process_all_chunks (demo_processor 5 2 9) True demo_world) =
     \<lparr>checkpoint_file =
        Some \<lparr>processed_chunk_ids = [''1_0'', ''1_1'', ''1_2'', ''1_3'', ''1_4''],
              last_batch = 3, timestamp = Some 1\<rparr>,
      service = 3,
      calls = [[''text 0'', ''text 1''], [''text 2'', ''text 3''], [''text 4'']],
      ticks = 3\<rparr> \<and>
   process_all_chunks (demo_processor 5 2 9) True
       (snd (process_all_chunks (demo_processor 5 2 9) True demo_world)) =
     (Inr \<lparr>embeddings = [], total_chunks = 5, processed = 5, skipped = 5,
           embeddings_generated = 0, stats = 3, elapsed_time = NoTime\<rparr>,
      snd (process_all_chunks (demo_processor 5 2 9) True demo_world))"
proof -
  let ?p = "demo_processor 5 2 9"
  let ?w = "snd (process_all_chunks ?p True demo_world)"
  have h: "\<forall>c\<in>set (get_all_chunks ?p).
             chunk_id c \<in> set (processed_chunk_ids (load_checkpoint ?p ?w))"
    by code_simp
  have w: "?w = \<lparr>checkpoint_file =
        Some \<lparr>processed_chunk_ids = [''1_0'', ''1_1'', ''1_2'', ''1_3'', ''1_4''],
              last_batch = 3, timestamp = Some 1\<rparr>,
      service = 3,
      calls = [[''text 0'', ''text 1''], [''text 2'', ''text 3''], [''text 4'']],
      ticks = 3\<rparr>"
    by code_simp
  have n: "int (length (get_all_chunks ?p)) = 5" by code_simp
  have st: "get_usage_stats ?p (service ?w) = 3" by code_simp
  from nothing_pending_is_success [OF h]
  have "process_all_chunks ?p True ?w =
     (Inr \<lparr>embeddings = [], total_chunks = 5, processed = 5, skipped = 5,
           embeddings_generated = 0, stats = 3, elapsed_time = NoTime\<rparr>, ?w)"
    unfolding n st .
  moreover have "chunk_id ` set (get_all_chunks ?p)
                   \<subseteq> set (processed_chunk_ids (load_checkpoint ?p ?w))"
    using h by blast
  ultimately show ?thesis using w by (intro conjI)
qed

text \<open>
  C7.  \<open>save_checkpoint(ids, n)\<close> followed by \<open>load_checkpoint()\<close> returns the three
  fields that were saved: the list \<open>ids\<close>, the number \<open>n\<close> and the clock reading taken
  by the save.  The file is the text that \<open>json.dump\<close> writes with \<open>indent=2\<close>, and
  \<open>json.load\<close> reads it: strings are escaped and unescaped, the batch number is printed
  and parsed in decimal.  Of the clock reading the statement asks what holds for every
  finite float: its text is a JSON number with a fraction or an exponent, and reading
  the text gives the float back.
\<close>

theorem checkpoint_round_trip:
  assumes "json_dump self = checkpoint_json float_repr"
    and "\<forall>s c. checkpoint_of_json float_of_str s = Some c \<longrightarrow> json_load self s = c"
    and "float_repr (time_time self (ticks w)) \<noteq> []"
    and "list_all numchar (float_repr (time_time self (ticks w)))"
    and "is_float_text (float_repr (time_time self (ticks w)))"
    and "float_of_str (float_repr (time_time self (ticks w))) = Some (time_time self (ticks w))"
  shows "load_checkpoint self (save_checkpoint self ids n w) =
           \<lparr>processed_chunk_ids = ids, last_batch = n,
            timestamp = Some (time_time self (ticks w))\<rparr>"
proof -
  let ?c = "\<lparr>processed_chunk_ids = ids, last_batch = n,
            timestamp = Some (time_time self (ticks w))\<rparr>"
  have "checkpoint_of_json float_of_str (checkpoint_json float_repr ?c) = Some ?c"
    using assms(3-6) by (intro checkpoint_of_json_written) simp
  with assms(2) have "json_load self (checkpoint_json float_repr ?c) = ?c"
    by blast
  with assms(1) show ?thesis
    by (simp add: load_checkpoint_def save_checkpoint_def)
qed

theorem checkpoint_round_trip_witness:
  "checkpoint_file
     (save_checkpoint (demo_json_processor 5 2 9)
        [''1_0'', [CHR ''a'', dq, bsl, nl, CHR 0xE9]] 4 demo_json_world) =
   Some (''{'' @ [nl]
         @ ''  '' @ [dq] @ ''processed_chunk_ids'' @ [dq] @ '': ['' @ [nl]
         @ ''    '' @ [dq] @ ''1_0'' @ [dq] @ '','' @ [nl]
         @ ''    '' @ [dq] @ ''a'' @ [bsl, dq, bsl, bsl, bsl] @ ''n'' @ [bsl] @ ''u00e9'' @ [dq] @ [nl]
         @ ''  ],'' @ [nl]
         @ ''  '' @ [dq] @ ''last_batch'' @ [dq] @ '': 4,'' @ [nl]
         @ ''  '' @ [dq] @ ''timestamp'' @ [dq] @ '': 7.0'' @ [nl]
         @ ''}'') \<and>
   load_checkpoint (demo_json_processor 5 2 9)
     (save_checkpoint (demo_json_processor 5 2 9)
        [''1_0'', [CHR ''a'', dq, bsl, nl, CHR 0xE9]] 4 demo_json_world) =
   \<lparr>processed_chunk_ids = [''1_0'', [CHR ''a'', dq, bsl, nl, CHR 0xE9]], last_batch = 4,
    timestamp = Some 7\<rparr>"
proof -
  let ?p = "demo_json_processor 5 2 9"
  have written: "checkpoint_file
     (save_checkpoint ?p [''1_0'', [CHR ''a'', dq, bsl, nl, CHR 0xE9]] 4 demo_json_world) =
   Some (''{'' @ [nl]
         @ ''  '' @ [dq] @ ''processed_chunk_ids'' @ [dq] @ '': ['' @ [nl]
         @ ''    '' @ [dq] @ ''1_0'' @ [dq] @ '','' @ [nl]
         @ ''    '' @ [dq] @ ''a'' @ [bsl, dq, bsl, bsl, bsl] @ ''n'' @ [bsl] @ ''u00e9'' @ [dq] @ [nl]
         @ ''  ],'' @ [nl]
         @ ''  '' @ [dq] @ ''last_batch'' @ [dq] @ '': 4,'' @ [nl]
         @ ''  '' @ [dq] @ ''timestamp'' @ [dq] @ '': 7.0'' @ [nl]
         @ ''}'')"
    by code_simp
  have t: "time_time ?p (ticks demo_json_world) = 7"
    by (simp add: demo_json_processor_def demo_json_world_def)
  have h1: "json_dump ?p = checkpoint_json demo_float_repr"
    by (simp add: demo_json_processor_def)
  have h2: "\<forall>s c. checkpoint_of_json demo_float_of_str s = Some c \<longrightarrow> json_load ?p s = c"
    by (simp add: demo_json_processor_def)
  from checkpoint_round_trip [of ?p demo_float_repr demo_float_of_str demo_json_world,
      OF h1 h2 demo_float_text demo_float_round_trip]
  have "load_checkpoint ?p
     (save_checkpoint ?p [''1_0'', [CHR ''a'', dq, bsl, nl, CHR 0xE9]] 4 demo_json_world) =
   \<lparr>processed_chunk_ids = [''1_0'', [CHR ''a'', dq, bsl, nl, CHR 0xE9]], last_batch = 4,
    timestamp = Some 7\<rparr>"
    unfolding t .
  with written show ?thesis by (intro conjI)
qed

text \<open>
  C6.  A run that returns a result returns one embedding record per pending chunk, in
  the order of the pending chunks in \<open>get_all_chunks\<close>, each with the \<open>chunk_id\<close>,
  \<open>source_page\<close> and \<open>token_count\<close> of its chunk, provided the batch size is positive
  and the service answers every request with as many vectors as texts.
\<close>

theorem embeddings_follow_pending_chunks:
  assumes "0 < batch_size self"
    and "\<forall>s ts vs s'. generate_embeddings_batch self s ts = (Inr vs, s') \<longrightarrow>
                     length vs = length ts"
    and "process_all_chunks self resume w = (Inr r, w')"
  shows "map (\<lambda>e. (e_chunk_id e, e_source_page e, e_token_count e)) (embeddings r) =
         map (\<lambda>c. (chunk_id c, source_page c, token_count c)) (pending_chunks self resume w)"
proof (cases "pending_chunks self resume w = []")
  case True
  with assms(3) show ?thesis by (auto simp: process_all_chunks_pending)
next
  case False
  from batches_of_pos [OF assms(1)] obtain batches where
    b: "batches_of (batch_size self) (pending_chunks self resume w) = Inr batches"
    by blast
  from assms(3) False b obtain ed pids w2 where
    pb: "process_batches self 0 batches []
           (pyset (processed_chunk_ids (start_checkpoint self resume w)))
           (w\<lparr>ticks := ticks w + 1\<rparr>) = (Inr (ed, pids), w2)"
    and r: "embeddings r = ed"
    by (auto simp: process_all_chunks_pending split: prod.splits sum.splits if_splits)
  from process_batches_success [OF assms(2) pb]
  have "map carried_e ed = map carried_c (concat batches)" by simp
  also have "concat batches = pending_chunks self resume w"
    using assms(1) b by (rule batches_of_concat)
  finally show ?thesis
    unfolding r by (simp add: carried_e_def [abs_def] carried_c_def [abs_def])
qed

text \<open>
  C2.  Let the service answer the requests of the first \<open>k\<close> groups of a run and raise
  on the next one (group \<open>k + 1\<close> of the claim).  Then the run returns that exception,
  and the checkpoint file it leaves holds \<open>last_batch = k\<close> and, as processed
  identifiers, those the run started from together with those of the first \<open>k\<close>
  groups; when the stored identifiers are distinct, none of the failing group is
  among them.  The calls made to the service are the requests of the first \<open>k + 1\<close>
  groups.
\<close>

theorem terminal_error_saves_completed_groups:
  assumes "k < length (pending_batches self resume w)"
    and "served self (service w)
           (map (map text_field) (take k (pending_batches self resume w))) = Some sk"
    and "fst (generate_embeddings_batch self sk
           (map text_field (pending_batches self resume w ! k))) = Inl e"
  shows "\<exists>w' ids ts.
           process_all_chunks self resume w = (Inl e, w') \<and>
           checkpoint_file w' =
             Some (json_dump self
                     \<lparr>processed_chunk_ids = ids, last_batch = int k, timestamp = Some ts\<rparr>) \<and>
           set ids = set (processed_chunk_ids (start_checkpoint self resume w)) \<union>
                     chunk_id ` set (concat (take k (pending_batches self resume w))) \<and>
           (distinct (map chunk_id (get_all_chunks self)) \<longrightarrow>
              (\<forall>c\<in>set (pending_batches self resume w ! k). chunk_id c \<notin> set ids)) \<and>
           calls w' = calls w @
             map (map text_field) (take (Suc k) (pending_batches self resume w))"
proof -
  let ?bs = "pending_batches self resume w"
  let ?start = "processed_chunk_ids (start_checkpoint self resume w)"
  let ?ids = "pyset_update (pyset ?start) (map chunk_id (concat (take k ?bs)))"
  note nb = pending_batches_nonempty [OF assms(1)]
  have sv: "served self (service (w\<lparr>ticks := ticks w + 1\<rparr>))
              (map (map text_field) (take k ?bs)) = Some sk"
    using assms(2) by simp
  from process_batches_failure [OF sv assms(1) assms(3), of 0 "[]" "pyset ?start"]
  obtain w' where
    pb: "process_batches self 0 ?bs [] (pyset ?start) (w\<lparr>ticks := ticks w + 1\<rparr>) = (Inl e, w')"
    and cf: "checkpoint_file w' =
               Some (json_dump self \<lparr>processed_chunk_ids = ?ids, last_batch = int (0 + k),
                       timestamp = Some (time_time self (ticks w' - 1))\<rparr>)"
    and cl: "calls w' = calls (w\<lparr>ticks := ticks w + 1\<rparr>) @
               map (map text_field) (take (Suc k) ?bs)"
    by blast
  have run: "process_all_chunks self resume w = (Inl e, w')"
    using nb(2,3) pb by (simp add: process_all_chunks_pending)
  have ids: "set ?ids = set ?start \<union> chunk_id ` set (concat (take k ?bs))"
    by (simp add: set_pyset_update set_pyset)
  have fresh: "\<forall>c\<in>set (?bs ! k). chunk_id c \<notin> set ?ids"
    if d: "distinct (map chunk_id (get_all_chunks self))"
  proof
    fix c assume c: "c \<in> set (?bs ! k)"
    have cc: "concat ?bs = pending_chunks self resume w"
      using nb(1,2) by (rule batches_of_concat)
    have split: "?bs = take k ?bs @ (?bs ! k) # drop (Suc k) ?bs"
      using assms(1) by (rule id_take_nth_drop)
    define A where "A = map chunk_id (concat (take k ?bs))"
    define B where "B = map chunk_id (?bs ! k)"
    define C where "C = map chunk_id (concat (drop (Suc k) ?bs))"
    have "map chunk_id (concat ?bs) = A @ B @ C"
      by (subst split) (simp add: A_def B_def C_def)
    moreover have "distinct (map chunk_id (concat ?bs))"
      unfolding cc using d by (rule distinct_pending)
    ultimately have "distinct (A @ B @ C)" by simp
    then have "set A \<inter> set B = {}" by auto
    then have "set (map chunk_id (concat (take k ?bs))) \<inter> set (map chunk_id (?bs ! k)) = {}"
      by (simp only: A_def B_def)
    with c have a: "chunk_id c \<notin> chunk_id ` set (concat (take k ?bs))"
      by auto
    have "c \<in> set (concat ?bs)"
      using c assms(1) by (auto intro: nth_mem)
    then have "chunk_id c \<notin> set ?start"
      unfolding cc by (rule pending_not_processed)
    with a show "chunk_id c \<notin> set ?ids" by (simp add: ids)
  qed
  show ?thesis
    using run cf ids fresh cl by (intro exI [of _ w'] exI [of _ ?ids] exI) auto
qed

theorem terminal_error_saves_completed_groups_witness:
  "1 < length (pending_batches (demo_processor 25 10 1) True demo_world) \<and>
   length (pending_chunks (demo_processor 25 10 1) True demo_world) = 25 \<and>
   served (demo_processor 25 10 1) (service demo_world)
     (map (map text_field) (take 1 (pending_batches (demo_processor 25 10 1) True demo_world)))
     = Some 1 \<and>
   fst (generate_embeddings_batch (demo_processor 25 10 1) 1
          (map text_field (pending_batches (demo_processor 25 10 1) True demo_world ! 1)))
     = Inl (EmbeddingError ''quota exceeded'') \<and>
   fst (process_all_chunks (demo_processor 25 10 1) True demo_world)
     = Inl (EmbeddingError ''quota exceeded'') \<and>
   checkpoint_file (snd (process_all_chunks (demo_processor 25 10 1) True demo_world)) =
     Some \<lparr>processed_chunk_ids =
             [''1_0'', ''1_1'', ''1_2'', ''1_3'', ''1_4'', ''1_5'', ''1_6'', ''1_7'', ''1_8'', ''1_9''],
           last_batch = 1, timestamp = Some 1\<rparr> \<and>
   (\<exists>w' ids ts.
      process_all_chunks (demo_processor 25 10 1) True demo_world
        = (Inl (EmbeddingError ''quota exceeded''), w') \<and>
      checkpoint_file w' =
        Some (json_dump (demo_processor 25 10 1)
                \<lparr>processed_chunk_ids = ids, last_batch = int 1, timestamp = Some ts\<rparr>) \<and>
      set ids =
        set (processed_chunk_ids (start_checkpoint (demo_processor 25 10 1) True demo_world)) \<union>
        chunk_id ` set (concat (take 1 (pending_batches (demo_processor 25 10 1) True demo_world))))"
proof -
  let ?p = "demo_processor 25 10 1"
  let ?bs = "pending_batches ?p True demo_world"
  have h1: "1 < length ?bs" by code_simp
  have n: "length (pending_chunks ?p True demo_world) = 25" by code_simp
  have h2: "served ?p (service demo_world) (map (map text_field) (take 1 ?bs)) = Some 1"
    by code_simp
  have h3: "fst (generate_embeddings_batch ?p 1 (map text_field (?bs ! 1)))
              = Inl (EmbeddingError ''quota exceeded'')"
    by code_simp
  have r: "fst (process_all_chunks ?p True demo_world) = Inl (EmbeddingError ''quota exceeded'')"
    by code_simp
  have c: "checkpoint_file (snd (process_all_chunks ?p True demo_world)) =
     Some \<lparr>processed_chunk_ids =
             [''1_0'', ''1_1'', ''1_2'', ''1_3'', ''1_4'', ''1_5'', ''1_6'', ''1_7'', ''1_8'', ''1_9''],
           last_batch = 1, timestamp = Some 1\<rparr>"
    by code_simp
  from terminal_error_saves_completed_groups [OF h1 h2 h3]
  have "\<exists>w' ids ts.
      process_all_chunks ?p True demo_world = (Inl (EmbeddingError ''quota exceeded''), w') \<and>
      checkpoint_file w' =
        Some (json_dump ?p \<lparr>processed_chunk_ids = ids, last_batch = int 1, timestamp = Some ts\<rparr>) \<and>
      set ids = set (processed_chunk_ids (start_checkpoint ?p True demo_world)) \<union>
                chunk_id ` set (concat (take 1 ?bs))"
    by blast
  with h1 n h2 h3 r c show ?thesis by blast
qed

theorem embeddings_follow_pending_chunks_witness:
  "0 < batch_size (demo_processor 5 2 9) \<and>
   (\<exists>r w'. process_all_chunks (demo_processor 5 2 9) True
              (demo_world\<lparr>checkpoint_file :=
                 Some \<lparr>processed_chunk_ids = [''1_1''], last_batch = 0, timestamp = None\<rparr>\<rparr>)
              = (Inr r, w') \<and>
            map (\<lambda>e. (e_chunk_id e, e_source_page e, e_token_count e)) (embeddings r) =
              [(''1_0'', PyInt 1, 2), (''1_2'', PyInt 1, 2), (''1_3'', PyInt 1, 2),
               (''1_4'', PyInt 1, 2)])"
proof -
  let ?p = "demo_processor 5 2 9"
  let ?w = "demo_world\<lparr>checkpoint_file :=
                 Some \<lparr>processed_chunk_ids = [''1_1''], last_batch = 0, timestamp = None\<rparr>\<rparr>"
  have h1: "0 < batch_size ?p" by (simp add: demo_processor_def)
  have h2: "\<forall>s ts vs s'. generate_embeddings_batch ?p s ts = (Inr vs, s') \<longrightarrow> length vs = length ts"
    by (auto simp: demo_processor_def split: if_splits)
  have "\<not> isl (fst (process_all_chunks ?p True ?w))" by code_simp
  then obtain r w' where run: "process_all_chunks ?p True ?w = (Inr r, w')"
    by (cases "process_all_chunks ?p True ?w"; cases "fst (process_all_chunks ?p True ?w)") auto
  have pend: "map (\<lambda>c. (chunk_id c, source_page c, token_count c)) (pending_chunks ?p True ?w) =
              [(''1_0'', PyInt 1, 2), (''1_2'', PyInt 1, 2), (''1_3'', PyInt 1, 2),
               (''1_4'', PyInt 1, 2)]"
    by code_simp
  from embeddings_follow_pending_chunks [OF h1 h2 run]
  have emb: "map (\<lambda>e. (e_chunk_id e, e_source_page e, e_token_count e)) (embeddings r) =
              [(''1_0'', PyInt 1, 2), (''1_2'', PyInt 1, 2), (''1_3'', PyInt 1, 2),
               (''1_4'', PyInt 1, 2)]"
    unfolding pend .
  have "\<exists>r w'. process_all_chunks ?p True ?w = (Inr r, w') \<and>
            map (\<lambda>e. (e_chunk_id e, e_source_page e, e_token_count e)) (embeddings r) =
              [(''1_0'', PyInt 1, 2), (''1_2'', PyInt 1, 2), (''1_3'', PyInt 1, 2),
               (''1_4'', PyInt 1, 2)]"
    using run emb by (intro exI [of _ r] exI [of _ w'] conjI)
  with h1 show ?thesis by (intro conjI)
qed

section \<open>Properties of the upload to the vector store\<close>

text \<open>
  C8.  With a positive batch size, one call of \<open>upsert_embeddings\<close> uploads every record
  and gives the record at position i the point identifier i, whatever its \<open>chunk_id\<close>
  and whatever was uploaded before.  Every call numbers its points from 0 again, so
  the identifiers of two calls overlap.
\<close>

theorem upsert_ids_restart_at_zero:
  assumes "0 < bsize"
  shows "\<exists>new. upsert_embeddings data bsize uploads = (Inr (int (length data)), uploads @ new) \<and>
               map point_id (concat new) = map int [0..<length data] \<and>
               map payload_chunk_id (concat new) = map e_chunk_id data"
proof -
  let ?n = "nat bsize"
  let ?m = "(length data + ?n - 1) div ?n"
  have n: "0 < ?n" using assms by simp
  have all: "take (?m * ?n) data = data"
    using ceil_div_covers [OF n, of "length data"] by simp
  from upsert_fold [OF n refl order_refl, of data ups] 
  obtain new where
    "foldl (upsert_batch data bsize) (0, uploads) (map (\<lambda>k. k * ?n) [0..<?m]) =
       (int (length data), uploads @ new)"
    "map point_id (concat new) = map int [0..<length data]"
    "map payload_chunk_id (concat new) = map e_chunk_id data"
    using upsert_fold [OF n refl order_refl, of data uploads] unfolding all by blast
  then show ?thesis
    using assms by (auto simp: upsert_embeddings_def py_range_def)
qed

theorem upsert_ids_restart_at_zero_witness:
  "(0::int) < 2 \<and>
   map (map (\<lambda>p. (point_id p, payload_chunk_id p)))
     (snd (upsert_embeddings (demo_embeddings [''2_0'', ''2_1'']) 2
        (snd (upsert_embeddings (demo_embeddings [''1_0'', ''1_1'', ''1_2'']) 2 [])))) =
     [[(0, ''1_0''), (1, ''1_1'')], [(2, ''1_2'')], [(0, ''2_0''), (1, ''2_1'')]] \<and>
   (\<exists>new. upsert_embeddings (demo_embeddings [''2_0'', ''2_1'']) 2
             (snd (upsert_embeddings (demo_embeddings [''1_0'', ''1_1'', ''1_2'']) 2 [])) =
           (Inr 2, snd (upsert_embeddings (demo_embeddings [''1_0'', ''1_1'', ''1_2'']) 2 []) @ new) \<and>
          map point_id (concat new) = [0, 1] \<and>
          map payload_chunk_id (concat new) = [''2_0'', ''2_1''])"
proof -
  have h: "(0::int) < 2" by simp
  have e: "map (map (\<lambda>p. (point_id p, payload_chunk_id p)))
     (snd (upsert_embeddings (demo_embeddings [''2_0'', ''2_1'']) 2
        (snd (upsert_embeddings (demo_embeddings [''1_0'', ''1_1'', ''1_2'']) 2 [])))) =
     [[(0, ''1_0''), (1, ''1_1'')], [(2, ''1_2'')], [(0, ''2_0''), (1, ''2_1'')]]"
    by code_simp
  have l: "int (length (demo_embeddings [''2_0'', ''2_1''])) = 2" by code_simp
  have u: "map int [0..<length (demo_embeddings [''2_0'', ''2_1''])] = [0, 1]" by code_simp
  have c: "map e_chunk_id (demo_embeddings [''2_0'', ''2_1'']) = [''2_0'', ''2_1'']" by code_simp
  from upsert_ids_restart_at_zero [OF h, of "demo_embeddings [''2_0'', ''2_1'']"
         "snd (upsert_embeddings (demo_embeddings [''1_0'', ''1_1'', ''1_2'']) 2 [])"]
  have "\<exists>new. upsert_embeddings (demo_embeddings [''2_0'', ''2_1'']) 2
             (snd (upsert_embeddings (demo_embeddings [''1_0'', ''1_1'', ''1_2'']) 2 [])) =
           (Inr 2, snd (upsert_embeddings (demo_embeddings [''1_0'', ''1_1'', ''1_2'']) 2 []) @ new) \<and>
          map point_id (concat new) = [0, 1] \<and>
          map payload_chunk_id (concat new) = [''2_0'', ''2_1'']"
    unfolding l u c .
  with h e show ?thesis by (intro conjI)
qed

end
